theory Spec2Isabelle
  imports Main "HOL-Library.Word" "HOL-Library.Multiset"
begin

section \<open>MediaSourceState (media/filters/media\_source\_state.cc)\<close>

text \<open>
  A shallow embedding of the per-source-buffer coordination layer: the buffered-range
  intersection, the proportional eviction, the negotiation of track configurations and
  the delivery of frame batches. The object's members become the fields of a record that
  every operation takes and returns. The collaborators (stream parser, frame processor,
  the per-track streams, the callbacks) are outside the file: each call to one of them is
  appended to the field \<open>calls\<close>, and what the collaborator answers is read from an
  environment whose functions see the calls made so far. Diagnostics (MEDIA\_LOG, DVLOG,
  media-log properties) are left out. DCHECKs are compiled out, as in a release build;
  CHECK aborts.
\<close>

subsection \<open>Values\<close>

text \<open>
  Modelled from the spec: base::TimeDelta and DecodeTimestamp are declared outside the
  sources; a time is an integer count of ticks, and the default-constructed TimeDelta
  is 0.
\<close>

type_synonym TimeDelta = int
type_synonym DecodeTimestamp = int

type_synonym TrackId = int
type_synonym size_t = "64 word"
type_synonym uint64_t = "64 word"

text \<open>A ChunkDemuxerStream object is known by its identity; a pointer to one may be null.\<close>

type_synonym handle = nat
type_synonym stream_ptr = "handle option"

subsection \<open>Ranges of time\<close>

text \<open>
  Modelled from the spec: the class template Ranges (media/base/ranges.h) is not among
  the sources. The spec describes a buffered range set as an ordered, disjoint set of
  [start, end) intervals, seeds the result with a single interval, extends the last
  interval of a set, and intersects by the standard set intersection over ordered
  intervals. A range set is
  the list of its intervals in increasing order; \<open>Add\<close> keeps the list ordered and
  merges the intervals the new one overlaps or touches; \<open>IntersectionWith\<close> walks both
  lists with two cursors and adds each overlap to the result.
\<close>

type_synonym Ranges = "(TimeDelta \<times> TimeDelta) list"

fun merge_following :: "TimeDelta \<times> TimeDelta \<Rightarrow> Ranges \<Rightarrow> Ranges" where
  "merge_following (a, b) [] = [(a, b)]"
| "merge_following (a, b) ((c, d) # rs) =
     (if c \<le> b then merge_following (a, max b d) rs else (a, b) # (c, d) # rs)"

fun add_range :: "TimeDelta \<Rightarrow> TimeDelta \<Rightarrow> Ranges \<Rightarrow> Ranges" where
  "add_range s e [] = [(s, e)]"
| "add_range s e ((a, b) # rs) =
     (if b < s then (a, b) # add_range s e rs
      else if e < a then (s, e) # (a, b) # rs
      else merge_following (min s a, max b e) rs)"

definition Add :: "TimeDelta \<Rightarrow> TimeDelta \<Rightarrow> Ranges \<Rightarrow> Ranges" where
  "Add s e rs = (if s = e then rs else add_range s e rs)"

fun intersection_loop :: "Ranges \<Rightarrow> Ranges \<Rightarrow> Ranges \<Rightarrow> Ranges" where
  "intersection_loop [] ys result = result"
| "intersection_loop (x # xs) [] result = result"
| "intersection_loop ((a, b) # xs) ((c, d) # ys) result =
     (let max_start = max a c;
          min_end = min b d;
          result' = (if max_start < min_end then Add max_start min_end result else result)
      in if b < d then intersection_loop xs ((c, d) # ys) result'
         else intersection_loop ((a, b) # xs) ys result')"

definition IntersectionWith :: "Ranges \<Rightarrow> Ranges \<Rightarrow> Ranges" where
  "IntersectionWith xs ys = intersection_loop xs ys []"

text \<open>The points a range set covers, and the shape every range set has: each interval
  is non-empty and ends strictly before the next one starts.\<close>

definition points :: "Ranges \<Rightarrow> TimeDelta set" where
  "points rs = (\<Union>(s, e) \<in> set rs. {s..<e})"

fun valid_ranges :: "Ranges \<Rightarrow> bool" where
  "valid_ranges [] = True"
| "valid_ranges [(s, e)] = (s < e)"
| "valid_ranges ((s, e) # (s', e') # rs) = (s < e \<and> e < s' \<and> valid_ranges ((s', e') # rs))"

subsection \<open>ComputeRangesIntersection\<close>

text \<open>Steps 2 and 3: the largest end time among the last ranges of the non-empty sets,
  starting from the default TimeDelta.\<close>

fun highest_end_time_loop :: "Ranges list \<Rightarrow> TimeDelta \<Rightarrow> TimeDelta" where
  "highest_end_time_loop [] highest_end_time = highest_end_time"
| "highest_end_time_loop (ranges # rest) highest_end_time =
     (if length ranges = 0 then highest_end_time_loop rest highest_end_time
      else highest_end_time_loop rest (max highest_end_time (snd (ranges ! (length ranges - 1)))))"

text \<open>Step 5: one source buffer after the other, from left to right.\<close>

fun intersect_loop :: "bool \<Rightarrow> TimeDelta \<Rightarrow> Ranges list \<Rightarrow> Ranges \<Rightarrow> Ranges" where
  "intersect_loop ended highest_end_time [] intersection_ranges = intersection_ranges"
| "intersect_loop ended highest_end_time (ranges # rest) intersection_ranges =
     (let source_ranges =
            (if ended \<and> length ranges \<noteq> 0
             then Add (fst (ranges ! (length ranges - 1))) highest_end_time ranges
             else ranges)
      in intersect_loop ended highest_end_time rest
           (IntersectionWith intersection_ranges source_ranges))"

definition ComputeRangesIntersection :: "Ranges list \<Rightarrow> bool \<Rightarrow> Ranges" where
  "ComputeRangesIntersection active_ranges ended =
     (if active_ranges = [] then []
      else let highest_end_time = highest_end_time_loop active_ranges 0;
               intersection_ranges = Add 0 highest_end_time []
           in intersect_loop ended highest_end_time active_ranges intersection_ranges)"


text \<open>The end times that step 3 ranges over, and the source ranges of step 5.2.\<close>

definition last_end_times :: "Ranges list \<Rightarrow> TimeDelta set" where
  "last_end_times active = {snd (last r) | r. r \<in> set active \<and> r \<noteq> []}"

definition source_ranges_of :: "bool \<Rightarrow> TimeDelta \<Rightarrow> Ranges \<Rightarrow> Ranges" where
  "source_ranges_of ended highest_end_time r =
     (if ended \<and> length r \<noteq> 0
      then Add (fst (r ! (length r - 1))) highest_end_time r else r)"

subsection \<open>Tracks, configurations and buffers\<close>

text \<open>The enumerations and configuration classes are declared outside the sources; a
  codec is a number, a decoder configuration is its codec and the rest of its content.\<close>

datatype DemuxerStream_Type = UNKNOWN | AUDIO | VIDEO | TEXT | NUM_TYPES

datatype MediaTrack_Type = Text | Audio | Video

datatype State =
  UNINITIALIZED | PENDING_PARSER_CONFIG | PENDING_PARSER_INIT | PARSER_INITIALIZED

type_synonym AudioCodec = nat
type_synonym VideoCodec = nat

record AudioDecoderConfig =
  audio_codec :: AudioCodec
  audio_details :: nat

record VideoDecoderConfig =
  video_codec :: VideoCodec
  video_details :: nat

record TextTrackConfig =
  kind :: nat
  label :: string
  language :: string
  text_id :: string

record MediaTrack =
  track_type :: MediaTrack_Type
  bytestream_track_id :: TrackId
  media_track_id :: string

record MediaTracks =
  tracks :: "MediaTrack list"
  getAudioConfig :: "TrackId \<Rightarrow> AudioDecoderConfig"
  getVideoConfig :: "TrackId \<Rightarrow> VideoDecoderConfig"

type_synonym TextTrackConfigMap = "(TrackId \<times> TextTrackConfig) list"

record StreamParserBuffer =
  timestamp :: TimeDelta
  duration :: TimeDelta

type_synonym BufferQueue = "StreamParserBuffer list"
type_synonym BufferQueueMap = "(TrackId \<times> BufferQueue) list"

subsection \<open>Collaborators\<close>

text \<open>Every call that leaves the object, in the order the calls are made.\<close>

datatype event =
    CB_CreateDemuxerStream DemuxerStream_Type
  | CB_NewTextTrack stream_ptr TextTrackConfig
  | CB_InitSegmentReceived "MediaTrack list"
  | FP_AddTrack TrackId stream_ptr
  | FP_UpdateTrack TrackId TrackId
  | FP_OnPossibleAudioConfigUpdate AudioDecoderConfig
  | FP_SetAllTrackBuffersNeedRandomAccessPoint
  | FP_ProcessFrames BufferQueueMap TimeDelta TimeDelta TimeDelta
  | Stream_UpdateAudioConfig stream_ptr AudioDecoderConfig
  | Stream_UpdateVideoConfig stream_ptr VideoDecoderConfig
  | Stream_UpdateTextConfig stream_ptr TextTrackConfig
  | Stream_SetStreamMemoryLimit stream_ptr nat
  | Stream_EvictCodedFrames stream_ptr DecodeTimestamp size_t

text \<open>
  What the collaborators answer. Each function takes the calls made before the one it
  answers, so an answer may depend on everything that happened so far. \<open>Matches\<close> is
  TextTrackConfig::Matches, declared outside the sources, the two size limits are the
  values of the command-line switches when they parse as unsigned numbers, and
  \<open>kNoTimestamp\<close> is the constant of that name, declared outside the sources too.
\<close>

record env =
  create_demuxer_stream_cb :: "event list \<Rightarrow> DemuxerStream_Type \<Rightarrow> stream_ptr"
  AddTrack :: "event list \<Rightarrow> TrackId \<Rightarrow> stream_ptr \<Rightarrow> bool"
  UpdateTrack :: "event list \<Rightarrow> TrackId \<Rightarrow> TrackId \<Rightarrow> bool"
  ProcessFrames ::
    "event list \<Rightarrow> BufferQueueMap \<Rightarrow> TimeDelta \<Rightarrow> TimeDelta \<Rightarrow> TimeDelta \<Rightarrow> bool \<times> TimeDelta"
  UpdateAudioConfig :: "event list \<Rightarrow> stream_ptr \<Rightarrow> AudioDecoderConfig \<Rightarrow> bool"
  UpdateVideoConfig :: "event list \<Rightarrow> stream_ptr \<Rightarrow> VideoDecoderConfig \<Rightarrow> bool"
  stream_media_track_id :: "stream_ptr \<Rightarrow> string"
  text_track_config :: "event list \<Rightarrow> stream_ptr \<Rightarrow> TextTrackConfig"
  GetBufferedSize :: "event list \<Rightarrow> stream_ptr \<Rightarrow> size_t"
  stream_EvictCodedFrames :: "event list \<Rightarrow> stream_ptr \<Rightarrow> DecodeTimestamp \<Rightarrow> size_t \<Rightarrow> bool"
  Matches :: "TextTrackConfig \<Rightarrow> TextTrackConfig \<Rightarrow> bool"
  kMSEAudioBufferSizeLimit :: "nat option"
  kMSEVideoBufferSizeLimit :: "nat option"
  kNoTimestamp :: TimeDelta

subsection \<open>The object\<close>

text \<open>
  The three track tables are std::map objects: lists of key and value in increasing key
  order, each key once. The audio and video tables hold only streams that passed the null
  test; the text table holds pointers, which the source does not test.
\<close>

type_synonym ('k, 'v) std_map = "('k \<times> 'v) list"

fun map_assign :: "'k::linorder \<Rightarrow> 'v \<Rightarrow> ('k, 'v) std_map \<Rightarrow> ('k, 'v) std_map" where
  "map_assign k v [] = [(k, v)]"
| "map_assign k v ((k', v') # m) =
     (if k < k' then (k, v) # (k', v') # m
      else if k = k' then (k, v) # m
      else (k', v') # map_assign k v m)"

definition map_erase :: "'k \<Rightarrow> ('k, 'v) std_map \<Rightarrow> ('k, 'v) std_map" where
  "map_erase k m = filter (\<lambda>kv. fst kv \<noteq> k) m"

definition map_find :: "('k, 'v) std_map \<Rightarrow> 'k \<Rightarrow> 'v option" where
  "map_find m k = map_of m k"

text \<open>The members keep their names, without the trailing underscore.\<close>

record MediaSourceState =
  audio_streams :: "(TrackId, handle) std_map"
  video_streams :: "(TrackId, handle) std_map"
  text_stream_map :: "(TrackId, stream_ptr) std_map"
  expected_audio_codecs :: "AudioCodec list"
  expected_video_codecs :: "VideoCodec list"
  first_init_segment_received :: bool
  append_in_progress :: bool
  state :: State
  auto_update_timestamp_offset :: bool
  parsing_media_segment :: bool
  media_segment_has_data_for_track :: "(TrackId, bool) std_map"
  append_window_start_during_append :: TimeDelta
  append_window_end_during_append :: TimeDelta
  calls :: "event list"

definition call :: "event \<Rightarrow> MediaSourceState \<Rightarrow> MediaSourceState" where
  "call ev this = this\<lparr>calls := calls this @ [ev]\<rparr>"

text \<open>The stream pointers of the three tables, in the order the loops visit them.\<close>

definition all_streams :: "MediaSourceState \<Rightarrow> stream_ptr list" where
  "all_streams this =
     map (\<lambda>it. Some (snd it)) (audio_streams this) @
     map (\<lambda>it. Some (snd it)) (video_streams this) @
     map snd (text_stream_map this)"

subsection \<open>EvictCodedFrames\<close>

text \<open>
  size\_t is taken as the 64-bit unsigned type, so the sum of the sizes and the product
  \<open>newDataSize * curr_size\<close> wrap around at \<open>2 ^ 64\<close>. The source runs the same loop
  over the audio, the video and the text table; the model runs one loop over
  \<open>all_streams\<close>. Reading a size is not recorded as a call.
\<close>

fun total_buffered_size_loop :: "env \<Rightarrow> event list \<Rightarrow> stream_ptr list \<Rightarrow> size_t \<Rightarrow> size_t" where
  "total_buffered_size_loop E cs [] total_buffered_size = total_buffered_size"
| "total_buffered_size_loop E cs (it # rest) total_buffered_size =
     total_buffered_size_loop E cs rest (total_buffered_size + GetBufferedSize E cs it)"

fun evict_loop ::
  "env \<Rightarrow> DecodeTimestamp \<Rightarrow> size_t \<Rightarrow> size_t \<Rightarrow> stream_ptr list \<Rightarrow>
   bool \<times> event list \<Rightarrow> bool \<times> event list" where
  "evict_loop E media_time newDataSize total_buffered_size [] (success, cs) = (success, cs)"
| "evict_loop E media_time newDataSize total_buffered_size (it # rest) (success, cs) =
     (let curr_size = GetBufferedSize E cs it
      in if curr_size = 0
         then evict_loop E media_time newDataSize total_buffered_size rest (success, cs)
         else let estimated_new_size = newDataSize * curr_size div total_buffered_size;
                  evicted = stream_EvictCodedFrames E cs it media_time estimated_new_size
              in evict_loop E media_time newDataSize total_buffered_size rest
                   (success \<and> evicted,
                    cs @ [Stream_EvictCodedFrames it media_time estimated_new_size]))"

definition EvictCodedFrames ::
  "env \<Rightarrow> MediaSourceState \<Rightarrow> DecodeTimestamp \<Rightarrow> size_t \<Rightarrow> bool \<times> MediaSourceState" where
  "EvictCodedFrames E this media_time newDataSize =
     (let total_buffered_size =
            total_buffered_size_loop E (calls this) (all_streams this) 0
      in if total_buffered_size = 0 then (True, this)
         else let (success, cs) =
                    evict_loop E media_time newDataSize total_buffered_size
                      (all_streams this) (True, calls this)
              in (success, this\<lparr>calls := cs\<rparr>))"


subsection \<open>OnNewConfigs\<close>

fun check_track_ids :: "TrackId list \<Rightarrow> TrackId set \<Rightarrow> bool" where
  "check_track_ids [] bytestream_ids = True"
| "check_track_ids (track_id # rest) bytestream_ids =
     (if track_id \<in> bytestream_ids then False
      else check_track_ids rest (insert track_id bytestream_ids))"

text \<open>The two loops of the source share one set of identifiers: the media tracks first,
  the text tracks after them.\<close>

definition CheckBytestreamTrackIds :: "MediaTracks \<Rightarrow> TextTrackConfigMap \<Rightarrow> bool" where
  "CheckBytestreamTrackIds tr text_configs =
     check_track_ids (map bytestream_track_id (tracks tr) @ map fst text_configs) {}"

text \<open>
  The source has the same block for an audio and for a video track; the model has it once,
  over the table and the stream type. First init segment: a new stream from the factory,
  registered with the frame processor. Null and a refused registration both end the call.
\<close>

definition create_stream ::
  "env \<Rightarrow> DemuxerStream_Type \<Rightarrow> TrackId \<Rightarrow> (TrackId, handle) std_map \<Rightarrow> event list \<Rightarrow>
   handle option \<times> (TrackId, handle) std_map \<times> event list" where
  "create_stream E type track_id streams cs =
     (let stream = create_demuxer_stream_cb E cs type;
          cs1 = cs @ [CB_CreateDemuxerStream type]
      in case stream of
           None \<Rightarrow> (None, streams, cs1)
         | Some h \<Rightarrow>
             if \<not> AddTrack E cs1 track_id (Some h)
             then (None, streams, cs1 @ [FP_AddTrack track_id (Some h)])
             else (Some h, map_assign track_id h streams,
                   cs1 @ [FP_AddTrack track_id (Some h)]))"

text \<open>A later init segment: with more than one stream the identifier must be in the
  table; otherwise the only stream is taken, and its key is replaced when the identifier
  changed. The answer of UpdateTrack is not looked at here.\<close>

definition find_stream ::
  "TrackId \<Rightarrow> (TrackId, handle) std_map \<Rightarrow> event list \<Rightarrow>
   handle option \<times> (TrackId, handle) std_map \<times> event list" where
  "find_stream track_id streams cs =
     (if length streams > 1 then (map_find streams track_id, streams, cs)
      else case streams of
             [] \<Rightarrow> (None, streams, cs)
           | it # _ \<Rightarrow>
               if fst it \<noteq> track_id
               then (Some (snd it),
                     map_erase (fst it) (map_assign track_id (snd it) streams),
                     cs @ [FP_UpdateTrack (fst it) track_id])
               else (Some (snd it), streams, cs))"

text \<open>The locals of the loop over the tracks, the object, and the tracks visited so far
  with the identifier that set\_id gave them.\<close>

record negotiation =
  expected_acodecs :: "AudioCodec list"
  expected_vcodecs :: "VideoCodec list"
  success :: bool
  object :: MediaSourceState
  visited :: "MediaTrack list"

datatype step = Return_false MediaSourceState | Continue negotiation

definition audio_track_step :: "env \<Rightarrow> MediaTracks \<Rightarrow> MediaTrack \<Rightarrow> negotiation \<Rightarrow> step" where
  "audio_track_step E tr track n =
     (let track_id = bytestream_track_id track;
          audio_config = getAudioConfig tr track_id
      in if audio_codec audio_config \<notin> set (expected_acodecs n) then Return_false (object n)
         else
           let expected = remove1 (audio_codec audio_config) (expected_acodecs n);
               ms = object n;
               (stream, streams, cs) =
                 (if \<not> first_init_segment_received ms
                  then create_stream E AUDIO track_id (audio_streams ms) (calls ms)
                  else find_stream track_id (audio_streams ms) (calls ms));
               ms1 = ms\<lparr>audio_streams := streams, calls := cs\<rparr>
           in case stream of
                None \<Rightarrow> Return_false ms1
              | Some h \<Rightarrow>
                  let track' = track\<lparr>media_track_id := stream_media_track_id E (Some h)\<rparr>;
                      ms2 = call (FP_OnPossibleAudioConfigUpdate audio_config) ms1;
                      updated = UpdateAudioConfig E (calls ms2) (Some h) audio_config;
                      ms3 = call (Stream_UpdateAudioConfig (Some h) audio_config) ms2
                  in Continue (n\<lparr>expected_acodecs := expected,
                                  success := success n \<and> updated,
                                  object := ms3,
                                  visited := visited n @ [track']\<rparr>))"

definition video_track_step :: "env \<Rightarrow> MediaTracks \<Rightarrow> MediaTrack \<Rightarrow> negotiation \<Rightarrow> step" where
  "video_track_step E tr track n =
     (let track_id = bytestream_track_id track;
          video_config = getVideoConfig tr track_id
      in if video_codec video_config \<notin> set (expected_vcodecs n) then Return_false (object n)
         else
           let expected = remove1 (video_codec video_config) (expected_vcodecs n);
               ms = object n;
               (stream, streams, cs) =
                 (if \<not> first_init_segment_received ms
                  then create_stream E VIDEO track_id (video_streams ms) (calls ms)
                  else find_stream track_id (video_streams ms) (calls ms));
               ms1 = ms\<lparr>video_streams := streams, calls := cs\<rparr>
           in case stream of
                None \<Rightarrow> Return_false ms1
              | Some h \<Rightarrow>
                  let track' = track\<lparr>media_track_id := stream_media_track_id E (Some h)\<rparr>;
                      updated = UpdateVideoConfig E (calls ms1) (Some h) video_config;
                      ms2 = call (Stream_UpdateVideoConfig (Some h) video_config) ms1
                  in Continue (n\<lparr>expected_vcodecs := expected,
                                  success := success n \<and> updated,
                                  object := ms2,
                                  visited := visited n @ [track']\<rparr>))"

definition track_step :: "env \<Rightarrow> MediaTracks \<Rightarrow> MediaTrack \<Rightarrow> negotiation \<Rightarrow> step" where
  "track_step E tr track n =
     (if track_type track = Audio then audio_track_step E tr track n
      else if track_type track = Video then video_track_step E tr track n
      else Return_false (object n))"

fun tracks_loop :: "env \<Rightarrow> MediaTracks \<Rightarrow> MediaTrack list \<Rightarrow> negotiation \<Rightarrow> step" where
  "tracks_loop E tr [] n = Continue n"
| "tracks_loop E tr (track # rest) n =
     (case track_step E tr track n of
        Return_false ms \<Rightarrow> Return_false ms
      | Continue n' \<Rightarrow> tracks_loop E tr rest n')"

text \<open>
  The text tracks. A pointer in the text table, and the pointer the factory returns for a
  text stream, may be null, and the source calls members through them without a test. Such
  a call through a null pointer is undefined behaviour and the process dies on it: the
  reconciliation of the text tracks either proceeds, with the value of \<open>success\<close>, or
  stops at the dereference of a null pointer.
\<close>

datatype progress = Null_dereferenced | Proceeds bool

text \<open>No text stream yet: one stream per text configuration, until the frame processor
  refuses one. What the factory returned goes to AddTrack untested; UpdateTextConfig is
  the first call through it.\<close>

fun create_text_streams ::
  "env \<Rightarrow> TextTrackConfigMap \<Rightarrow> bool \<times> MediaSourceState \<Rightarrow> progress \<times> MediaSourceState" where
  "create_text_streams E [] (ok, ms) = (Proceeds ok, ms)"
| "create_text_streams E (itr # rest) (ok, ms) =
     (let text_stream = create_demuxer_stream_cb E (calls ms) TEXT;
          ms1 = call (CB_CreateDemuxerStream TEXT) ms;
          added = AddTrack E (calls ms1) (fst itr) text_stream;
          ms2 = call (FP_AddTrack (fst itr) text_stream) ms1
      in if \<not> added then (Proceeds False, ms2)
         else
           case text_stream of
             None \<Rightarrow> (Null_dereferenced, ms2)
           | Some h \<Rightarrow>
               let ms3 = call (Stream_UpdateTextConfig (Some h) (snd itr)) ms2;
                   ms4 = ms3\<lparr>text_stream_map :=
                                map_assign (fst itr) (Some h) (text_stream_map ms3)\<rparr>;
                   ms5 = call (CB_NewTextTrack (Some h) (snd itr)) ms4
               in create_text_streams E rest (ok, ms5))"

text \<open>One text stream and one text configuration: the identifier may change when the
  rest of the configuration matches.\<close>

definition remap_single_text_track ::
  "env \<Rightarrow> TextTrackConfigMap \<Rightarrow> bool \<times> MediaSourceState \<Rightarrow> progress \<times> MediaSourceState" where
  "remap_single_text_track E text_configs p =
     (case p of (ok, ms) \<Rightarrow>
        (case (text_configs, text_stream_map ms) of
           (config_itr # _, stream_itr # _) \<Rightarrow>
             (case snd stream_itr of
                None \<Rightarrow> (Null_dereferenced, ms)
              | Some h \<Rightarrow>
                  let text_stream = Some h;
                      old_config = text_track_config E (calls ms) text_stream;
                      new_config = \<lparr>kind = kind (snd config_itr),
                                    label = label (snd config_itr),
                                    language = language (snd config_itr),
                                    text_id = text_id old_config\<rparr>
                  in if \<not> Matches E new_config old_config then (Proceeds False, ms)
                     else
                       let old_id = fst stream_itr;
                           new_id = fst config_itr
                       in if new_id \<noteq> old_id
                          then (if UpdateTrack E (calls ms) old_id new_id
                                then (Proceeds ok,
                                      (call (FP_UpdateTrack old_id new_id) ms)
                                        \<lparr>text_stream_map :=
                                           map_assign new_id text_stream []\<rparr>)
                                else (Proceeds False,
                                      call (FP_UpdateTrack old_id new_id) ms))
                          else (Proceeds ok, ms))
         | _ \<Rightarrow> (Proceeds ok, ms)))"

text \<open>Several text streams: every configuration must be in the table and match.\<close>

fun match_text_configs ::
  "env \<Rightarrow> TextTrackConfigMap \<Rightarrow> bool \<times> MediaSourceState \<Rightarrow> progress \<times> MediaSourceState" where
  "match_text_configs E [] (ok, ms) = (Proceeds ok, ms)"
| "match_text_configs E (config_itr # rest) (ok, ms) =
     (case map_find (text_stream_map ms) (fst config_itr) of
        None \<Rightarrow> (Proceeds False, ms)
      | Some None \<Rightarrow> (Null_dereferenced, ms)
      | Some (Some h) \<Rightarrow>
          let new_config = snd config_itr;
              old_config = text_track_config E (calls ms) (Some h)
          in if \<not> Matches E new_config old_config then (Proceeds False, ms)
             else match_text_configs E rest (ok, ms))"

definition reconcile_text_tracks ::
  "env \<Rightarrow> TextTrackConfigMap \<Rightarrow> bool \<times> MediaSourceState \<Rightarrow> progress \<times> MediaSourceState" where
  "reconcile_text_tracks E text_configs p =
     (case p of (ok, ms) \<Rightarrow>
        if text_stream_map ms = [] then create_text_streams E text_configs (ok, ms)
        else
          let text_count = length (text_stream_map ms)
          in if length text_configs \<noteq> text_count then (Proceeds False, ms)
             else if text_count = 1 then remap_single_text_track E text_configs (ok, ms)
             else match_text_configs E text_configs (ok, ms))"

definition SetStreamMemoryLimits :: "env \<Rightarrow> MediaSourceState \<Rightarrow> MediaSourceState" where
  "SetStreamMemoryLimits E ms =
     (let ms1 =
            (case kMSEAudioBufferSizeLimit E of
               None \<Rightarrow> ms
             | Some audio_buf_size_limit \<Rightarrow>
                 if audio_buf_size_limit > 0
                 then fold (\<lambda>it. call (Stream_SetStreamMemoryLimit (Some (snd it))
                                          audio_buf_size_limit))
                        (audio_streams ms) ms
                 else ms)
      in case kMSEVideoBufferSizeLimit E of
           None \<Rightarrow> ms1
         | Some video_buf_size_limit \<Rightarrow>
             if video_buf_size_limit > 0
             then fold (\<lambda>it. call (Stream_SetStreamMemoryLimit (Some (snd it))
                                      video_buf_size_limit))
                    (video_streams ms1) ms1
             else ms1)"

text \<open>The result of the call: the CHECK on \<open>append_in_progress\<close> aborts the process,
  a member call through a null text stream kills it, every other path returns a
  boolean.\<close>

datatype outcome = CHECK_failed | Null_dereference | Returned bool

definition OnNewConfigs ::
  "env \<Rightarrow> MediaSourceState \<Rightarrow> MediaTracks \<Rightarrow> TextTrackConfigMap \<Rightarrow>
   outcome \<times> MediaSourceState" where
  "OnNewConfigs E ms tr text_configs =
     (if \<not> CheckBytestreamTrackIds tr text_configs then (Returned False, ms)
      else if \<not> append_in_progress ms then (CHECK_failed, ms)
      else
        case tracks_loop E tr (tracks tr)
               \<lparr>expected_acodecs = expected_audio_codecs ms,
                expected_vcodecs = expected_video_codecs ms,
                success = True, object = ms, visited = []\<rparr> of
          Return_false ms1 \<Rightarrow> (Returned False, ms1)
        | Continue n \<Rightarrow>
            if expected_acodecs n \<noteq> [] \<or> expected_vcodecs n \<noteq> []
            then (Returned False, object n)
            else
              case reconcile_text_tracks E text_configs (success n, object n) of
                (Null_dereferenced, ms2) \<Rightarrow> (Null_dereference, ms2)
              | (Proceeds ok, ms2) \<Rightarrow>
                  if audio_streams ms2 = [] \<and> video_streams ms2 = []
                  then (Returned False, ms2)
                  else
                    let ms3 = call FP_SetAllTrackBuffersNeedRandomAccessPoint ms2;
                        ms4 = (if \<not> first_init_segment_received ms3
                               then SetStreamMemoryLimits E
                                      (ms3\<lparr>first_init_segment_received := True\<rparr>)
                               else ms3)
                    in if ok
                       then (Returned True,
                             call (CB_InitSegmentReceived (visited n))
                               (ms4\<lparr>state := (if state ms4 = PENDING_PARSER_CONFIG
                                               then PENDING_PARSER_INIT else state ms4)\<rparr>))
                       else (Returned False, ms4))"

subsection \<open>OnNewBuffers\<close>

text \<open>The timestamp offset lives in a cell of the caller that the object only points
  to during an append: the model takes the value of the cell and returns the new one.
  \<open>EndTimestamp\<close> reads the last buffer of a queue; the source requires the queue to
  hold one.\<close>

definition EndTimestamp :: "BufferQueue \<Rightarrow> TimeDelta" where
  "EndTimestamp queue = timestamp (last queue) + duration (last queue)"

fun has_data_loop :: "BufferQueueMap \<Rightarrow> (TrackId, bool) std_map \<Rightarrow> (TrackId, bool) std_map" where
  "has_data_loop [] m = m"
| "has_data_loop (it # rest) m = has_data_loop rest (map_assign (fst it) True m)"

fun min_end_timestamp_loop :: "env \<Rightarrow> BufferQueueMap \<Rightarrow> TimeDelta \<Rightarrow> TimeDelta" where
  "min_end_timestamp_loop E [] min_end_timestamp = min_end_timestamp"
| "min_end_timestamp_loop E (it # rest) min_end_timestamp =
     (let bufq = snd it
      in if min_end_timestamp = kNoTimestamp E \<or> EndTimestamp bufq < min_end_timestamp
         then min_end_timestamp_loop E rest (EndTimestamp bufq)
         else min_end_timestamp_loop E rest min_end_timestamp)"

definition OnNewBuffers ::
  "env \<Rightarrow> MediaSourceState \<Rightarrow> BufferQueueMap \<Rightarrow> TimeDelta \<Rightarrow>
   bool \<times> MediaSourceState \<times> TimeDelta" where
  "OnNewBuffers E ms buffer_queue_map timestamp_offset =
     (let ms1 = ms\<lparr>media_segment_has_data_for_track :=
                     has_data_loop buffer_queue_map (media_segment_has_data_for_track ms)\<rparr>;
          timestamp_offset_before_processing = timestamp_offset;
          new_timestamp_offset =
            (if auto_update_timestamp_offset ms1
             then let min_end_timestamp =
                        min_end_timestamp_loop E buffer_queue_map (kNoTimestamp E)
                  in if min_end_timestamp \<noteq> kNoTimestamp E
                     then timestamp_offset_before_processing + min_end_timestamp
                     else timestamp_offset_before_processing
             else timestamp_offset_before_processing);
          (processed, offset_after) =
            ProcessFrames E (calls ms1) buffer_queue_map
              (append_window_start_during_append ms1) (append_window_end_during_append ms1)
              timestamp_offset;
          ms2 = call (FP_ProcessFrames buffer_queue_map
                        (append_window_start_during_append ms1)
                        (append_window_end_during_append ms1) timestamp_offset) ms1
      in if \<not> processed then (False, ms2, offset_after)
         else if auto_update_timestamp_offset ms2 \<and>
                 timestamp_offset_before_processing = offset_after
         then (True, ms2, new_timestamp_offset)
         else (True, ms2, offset_after))"


subsection \<open>Notions for the eviction\<close>

text \<open>The answer a stream gives to a delegated eviction, the conjunction of the answers
  to a sequence of calls, and the byte counts the calls ask for.\<close>

definition eviction_answer :: "env \<Rightarrow> event list \<Rightarrow> event \<Rightarrow> bool" where
  "eviction_answer E cs ev =
     (case ev of Stream_EvictCodedFrames it media_time n \<Rightarrow>
                   stream_EvictCodedFrames E cs it media_time n
               | _ \<Rightarrow> True)"

fun all_evicted :: "env \<Rightarrow> event list \<Rightarrow> event list \<Rightarrow> bool" where
  "all_evicted E cs [] = True"
| "all_evicted E cs (ev # evs) = (eviction_answer E cs ev \<and> all_evicted E (cs @ [ev]) evs)"

fun eviction_targets :: "event list \<Rightarrow> nat list" where
  "eviction_targets [] = []"
| "eviction_targets (Stream_EvictCodedFrames it media_time n # evs) = unat n # eviction_targets evs"
| "eviction_targets (ev # evs) = eviction_targets evs"

text \<open>The streams are separate objects: evicting from one leaves the size every other
  one reports as it was.\<close>

definition independent_sizes :: "env \<Rightarrow> bool" where
  "independent_sizes E =
     (\<forall>cs p q media_time n. q \<noteq> p \<longrightarrow>
        GetBufferedSize E (cs @ [Stream_EvictCodedFrames q media_time n]) p =
        GetBufferedSize E cs p)"

text \<open>One call for each stream whose size is not zero, in the order of the tables, with
  the byte count the 64-bit arithmetic gives.\<close>

definition delegated ::
  "env \<Rightarrow> event list \<Rightarrow> DecodeTimestamp \<Rightarrow> size_t \<Rightarrow> size_t \<Rightarrow> stream_ptr list \<Rightarrow> event list" where
  "delegated E cs media_time newDataSize tot ps =
     map (\<lambda>p. Stream_EvictCodedFrames p media_time
                 (newDataSize * GetBufferedSize E cs p div tot))
       (filter (\<lambda>p. GetBufferedSize E cs p \<noteq> 0) ps)"

text \<open>The same in unbounded arithmetic: the sizes as natural numbers, their sum, the
  calls with the count \<open>newDataSize * s div total\<close> rounded down, and the condition
  under which the 64-bit sum and products do not wrap around.\<close>

definition buffered_size :: "env \<Rightarrow> MediaSourceState \<Rightarrow> stream_ptr \<Rightarrow> nat" where
  "buffered_size E ms p = unat (GetBufferedSize E (calls ms) p)"

definition total_size :: "env \<Rightarrow> MediaSourceState \<Rightarrow> nat" where
  "total_size E ms = sum_list (map (buffered_size E ms) (all_streams ms))"

definition proportional_calls ::
  "env \<Rightarrow> MediaSourceState \<Rightarrow> DecodeTimestamp \<Rightarrow> size_t \<Rightarrow> event list" where
  "proportional_calls E ms media_time newDataSize =
     map (\<lambda>p. Stream_EvictCodedFrames p media_time
                 (of_nat (unat newDataSize * buffered_size E ms p div total_size E ms)))
       (filter (\<lambda>p. buffered_size E ms p \<noteq> 0) (all_streams ms))"

definition no_wraparound :: "env \<Rightarrow> MediaSourceState \<Rightarrow> size_t \<Rightarrow> bool" where
  "no_wraparound E ms newDataSize =
     (total_size E ms < 2 ^ 64 \<and>
      (\<forall>p \<in> set (all_streams ms). unat newDataSize * buffered_size E ms p < 2 ^ 64))"

text \<open>The calls an operation added to the ones made before it.\<close>

definition made_calls :: "MediaSourceState \<Rightarrow> MediaSourceState \<Rightarrow> event list" where
  "made_calls ms ms' = drop (length (calls ms)) (calls ms')"

subsection \<open>Concrete collaborators and objects\<close>

text \<open>Collaborators that accept everything and create nothing, and an object as Init
  leaves it.\<close>

definition quiet_env :: env where
  "quiet_env =
     \<lparr>create_demuxer_stream_cb = (\<lambda>cs type. None),
      AddTrack = (\<lambda>cs track_id stream. True),
      UpdateTrack = (\<lambda>cs old_id new_id. True),
      ProcessFrames = (\<lambda>cs buffers window_start window_end offset. (True, offset)),
      UpdateAudioConfig = (\<lambda>cs stream config. True),
      UpdateVideoConfig = (\<lambda>cs stream config. True),
      stream_media_track_id = (\<lambda>stream. []),
      text_track_config = (\<lambda>cs stream. \<lparr>kind = 0, label = [], language = [], text_id = []\<rparr>),
      GetBufferedSize = (\<lambda>cs stream. 0),
      stream_EvictCodedFrames = (\<lambda>cs stream media_time n. True),
      Matches = (\<lambda>a b. kind a = kind b \<and> label a = label b \<and> language a = language b
                         \<and> text_id a = text_id b),
      kMSEAudioBufferSizeLimit = None,
      kMSEVideoBufferSizeLimit = None,
      kNoTimestamp = - (2 ^ 63)\<rparr>"

definition fresh_object :: MediaSourceState where
  "fresh_object =
     \<lparr>audio_streams = [], video_streams = [], text_stream_map = [],
      expected_audio_codecs = [], expected_video_codecs = [],
      first_init_segment_received = False, append_in_progress = False,
      state = PENDING_PARSER_CONFIG, auto_update_timestamp_offset = False,
      parsing_media_segment = False, media_segment_has_data_for_track = [],
      append_window_start_during_append = 0, append_window_end_during_append = 0,
      calls = []\<rparr>"

text \<open>One audio, one video and one text stream with given sizes; the audio stream,
  the first to be asked, refuses to evict.\<close>

definition three_tracks :: MediaSourceState where
  "three_tracks = fresh_object\<lparr>audio_streams := [(1, 0)], video_streams := [(2, 1)],
                                text_stream_map := [(3, Some 2)]\<rparr>"

definition sizes_env :: "size_t \<Rightarrow> size_t \<Rightarrow> size_t \<Rightarrow> env" where
  "sizes_env a v t =
     quiet_env\<lparr>GetBufferedSize :=
                  (\<lambda>cs stream. if stream = Some 0 then a else if stream = Some 1 then v
                                else if stream = Some 2 then t else 0),
               stream_EvictCodedFrames := (\<lambda>cs stream media_time n. stream \<noteq> Some 0)\<rparr>"

definition made_targets ::
  "env \<Rightarrow> MediaSourceState \<Rightarrow> DecodeTimestamp \<Rightarrow> size_t \<Rightarrow> nat list" where
  "made_targets E ms media_time newDataSize =
     eviction_targets (made_calls ms (snd (EvictCodedFrames E ms media_time newDataSize)))"

subsection \<open>Notions for the delivery of buffers\<close>

text \<open>The end timestamps of the batches of a delivery, and a delivery as the source
  requires it: every queue holds a buffer, and no queue ends at \<open>kNoTimestamp\<close>.\<close>

definition end_timestamps :: "BufferQueueMap \<Rightarrow> TimeDelta set" where
  "end_timestamps buffer_queue_map = (\<lambda>it. EndTimestamp (snd it)) ` set buffer_queue_map"

definition proper_delivery :: "env \<Rightarrow> BufferQueueMap \<Rightarrow> bool" where
  "proper_delivery E buffer_queue_map =
     (buffer_queue_map \<noteq> [] \<and>
      (\<forall>it \<in> set buffer_queue_map. snd it \<noteq> [] \<and> EndTimestamp (snd it) \<noteq> kNoTimestamp E))"

text \<open>Two batches that end at 5 and at 7, and an object in the middle of an append with
  automatic offset updating.\<close>

definition two_batches :: BufferQueueMap where
  "two_batches =
     [(1, [\<lparr>timestamp = 0, duration = 3\<rparr>, \<lparr>timestamp = 3, duration = 2\<rparr>]),
      (2, [\<lparr>timestamp = 4, duration = 3\<rparr>])]"

definition auto_object :: MediaSourceState where
  "auto_object = fresh_object\<lparr>state := PARSER_INITIALIZED, append_in_progress := True,
                              auto_update_timestamp_offset := True,
                              parsing_media_segment := True\<rparr>"

subsection \<open>Notions for the negotiation\<close>

text \<open>The identifiers of a proposal, the locals at the start of the loop over the tracks,
  and the object a run of the loop ends with.\<close>

definition proposed_ids :: "MediaTracks \<Rightarrow> TextTrackConfigMap \<Rightarrow> TrackId list" where
  "proposed_ids tr text_configs = map bytestream_track_id (tracks tr) @ map fst text_configs"

definition negotiation_start :: "MediaSourceState \<Rightarrow> negotiation" where
  "negotiation_start ms =
     \<lparr>expected_acodecs = expected_audio_codecs ms,
      expected_vcodecs = expected_video_codecs ms,
      success = True, object = ms, visited = []\<rparr>"

fun object_of :: "step \<Rightarrow> MediaSourceState" where
  "object_of (Return_false ms) = ms"
| "object_of (Continue n) = object n"

text \<open>A track whose codec is not in the list of expected codecs of its kind.\<close>

definition unexpected_codec :: "MediaTracks \<Rightarrow> MediaSourceState \<Rightarrow> MediaTrack \<Rightarrow> bool" where
  "unexpected_codec tr ms track =
     (track_type track = Audio \<and>
        audio_codec (getAudioConfig tr (bytestream_track_id track)) \<notin> set (expected_audio_codecs ms)
      \<or> track_type track = Video \<and>
        video_codec (getVideoConfig tr (bytestream_track_id track)) \<notin> set (expected_video_codecs ms))"

text \<open>Proposals with one audio or video track, and with an audio and a video track.\<close>

definition one_track :: "MediaTrack_Type \<Rightarrow> TrackId \<Rightarrow> nat \<Rightarrow> MediaTracks" where
  "one_track type track_id codec =
     \<lparr>tracks = [\<lparr>track_type = type, bytestream_track_id = track_id, media_track_id = []\<rparr>],
      getAudioConfig = (\<lambda>i. \<lparr>audio_codec = codec, audio_details = 0\<rparr>),
      getVideoConfig = (\<lambda>i. \<lparr>video_codec = codec, video_details = 0\<rparr>)\<rparr>"

definition two_tracks :: "TrackId \<Rightarrow> TrackId \<Rightarrow> MediaTracks" where
  "two_tracks audio_id video_id =
     \<lparr>tracks = [\<lparr>track_type = Audio, bytestream_track_id = audio_id, media_track_id = []\<rparr>,
                \<lparr>track_type = Video, bytestream_track_id = video_id, media_track_id = []\<rparr>],
      getAudioConfig = (\<lambda>i. \<lparr>audio_codec = 7, audio_details = 0\<rparr>),
      getVideoConfig = (\<lambda>i. \<lparr>video_codec = 9, video_details = 0\<rparr>)\<rparr>"

text \<open>An object during an append.\<close>

definition appending :: "MediaSourceState \<Rightarrow> MediaSourceState" where
  "appending ms = ms\<lparr>append_in_progress := True\<rparr>"

text \<open>An object after its first init segment, with one audio stream under the
  identifier 1; a factory that returns null for text streams; a text configuration.\<close>

definition later_object :: MediaSourceState where
  "later_object =
     appending (fresh_object\<lparr>audio_streams := [(1, 0)], expected_audio_codecs := [7],
                              first_init_segment_received := True,
                              state := PARSER_INITIALIZED\<rparr>)"

definition null_text_env :: env where
  "null_text_env =
     quiet_env\<lparr>create_demuxer_stream_cb :=
                  (\<lambda>cs type. if type = TEXT then None else Some (length cs))\<rparr>"


text \<open>The audio track of a later init segment, under the identifier 2.\<close>

definition replacement_track :: MediaTrack where
  "replacement_track = \<lparr>track_type = Audio, bytestream_track_id = 2, media_track_id = []\<rparr>"

text \<open>The delivery of the track set, and an object that a run of some steps took to
  another one without touching the state of the state machine, without marking the track
  buffers and without a delivery.\<close>

definition is_delivery :: "event \<Rightarrow> bool" where
  "is_delivery ev = (case ev of CB_InitSegmentReceived delivered \<Rightarrow> True | _ \<Rightarrow> False)"

definition quiet_extension :: "MediaSourceState \<Rightarrow> MediaSourceState \<Rightarrow> bool" where
  "quiet_extension ms ms' =
     (state ms' = state ms \<and>
      (\<exists>evs. calls ms' = calls ms @ evs \<and>
         (\<forall>ev \<in> set evs. \<not> is_delivery ev \<and>
            ev \<noteq> FP_SetAllTrackBuffersNeedRandomAccessPoint)))"

text \<open>
  A call that gets to the end of OnNewConfigs: the identifiers differ, an append is in
  progress, every track was resolved, no expected codec is left over, the text tracks were
  reconciled without a null dereference, and there is an audio or a video stream. What
  the configuration updates and the text tracks did to \<open>success\<close> plays no part.
\<close>

definition reaches_end ::
  "env \<Rightarrow> MediaSourceState \<Rightarrow> MediaTracks \<Rightarrow> TextTrackConfigMap \<Rightarrow> bool" where
  "reaches_end E ms tr text_configs =
     (CheckBytestreamTrackIds tr text_configs \<and> append_in_progress ms \<and>
      (case tracks_loop E tr (tracks tr) (negotiation_start ms) of
         Return_false ms1 \<Rightarrow> False
       | Continue n \<Rightarrow>
           expected_acodecs n = [] \<and> expected_vcodecs n = [] \<and>
           (case reconcile_text_tracks E text_configs (success n, object n) of
              (Null_dereferenced, ms2) \<Rightarrow> False
            | (Proceeds ok, ms2) \<Rightarrow>
                \<not> (audio_streams ms2 = [] \<and> video_streams ms2 = []))))"

text \<open>Streams that refuse every audio configuration, and an object after its first init
  segment that holds a text stream besides the audio stream.\<close>

definition failing_config_env :: env where
  "failing_config_env = quiet_env\<lparr>UpdateAudioConfig := (\<lambda>cs stream config. False)\<rparr>"

definition later_object_with_text :: MediaSourceState where
  "later_object_with_text = later_object\<lparr>text_stream_map := [(3, Some 5)]\<rparr>"

section \<open>Properties\<close>

subsection \<open>Range sets\<close>


lemma valid_ranges_Cons:
  "valid_ranges ((s, e) # rs) \<longleftrightarrow> s < e \<and> (\<forall>(c, d) \<in> set rs. e < c) \<and> valid_ranges rs"
  by (induction rs arbitrary: s e rule: valid_ranges.induct) auto

lemma points_Nil [simp]: "points [] = {}"
  by (simp add: points_def)

lemma points_Cons [simp]: "points ((s, e) # rs) = {s..<e} \<union> points rs"
  by (simp add: points_def)

lemma starts_merge_following:
  "fst ` set (merge_following (a, b) rs) \<subseteq> insert a (fst ` set rs)"
  by (induction "(a, b)" rs arbitrary: b rule: merge_following.induct) auto

lemma valid_merge_following:
  "a < b \<Longrightarrow> valid_ranges rs \<Longrightarrow> \<forall>(c, d) \<in> set rs. a < c \<Longrightarrow>
   valid_ranges (merge_following (a, b) rs)"
proof (induction "(a, b)" rs arbitrary: b rule: merge_following.induct)
  case (1 b)
  then show ?case by simp
next
  case (2 b c d rs)
  then show ?case
    by (auto simp: valid_ranges_Cons)
qed

lemma points_merge_following:
  "a < b \<Longrightarrow> valid_ranges rs \<Longrightarrow> \<forall>(c, d) \<in> set rs. a < c \<Longrightarrow>
   points (merge_following (a, b) rs) = {a..<b} \<union> points rs"
proof (induction "(a, b)" rs arbitrary: b rule: merge_following.induct)
  case (1 b)
  then show ?case by simp
next
  case (2 b c d rs)
  then show ?case
    by (auto simp: valid_ranges_Cons)
qed

lemma starts_add_range:
  "fst ` set (add_range s e rs) \<subseteq> insert s (fst ` set rs)"
proof (induction s e rs rule: add_range.induct)
  case (1 s e)
  then show ?case by simp
next
  case (2 s e a b rs)
  have "fst ` set (merge_following (min s a, max b e) rs) \<subseteq> insert (min s a) (fst ` set rs)"
    by (rule starts_merge_following)
  with 2 show ?case by (auto simp: min_def split: if_splits)
qed

lemma valid_add_range:
  "s < e \<Longrightarrow> valid_ranges rs \<Longrightarrow> valid_ranges (add_range s e rs)"
proof (induction s e rs rule: add_range.induct)
  case (1 s e)
  then show ?case by simp
next
  case (2 s e a b rs)
  show ?case
  proof (cases "b < s")
    case True
    have "\<forall>(c, d) \<in> set (add_range s e rs). b < c"
      using starts_add_range [of s e rs] 2(3) True
      by (fastforce simp: valid_ranges_Cons)
    with 2 True show ?thesis by (auto simp: valid_ranges_Cons)
  next
    case False
    with 2 show ?thesis
      by (auto simp: valid_ranges_Cons intro!: valid_merge_following)
  qed
qed

lemma points_add_range:
  "s < e \<Longrightarrow> valid_ranges rs \<Longrightarrow> points (add_range s e rs) = points rs \<union> {s..<e}"
proof (induction s e rs rule: add_range.induct)
  case (1 s e)
  then show ?case by simp
next
  case (2 s e a b rs)
  show ?case
  proof (cases "b < s")
    case True
    with 2 show ?thesis by (auto simp: valid_ranges_Cons)
  next
    case False
    show ?thesis
    proof (cases "e < a")
      case True
      with False show ?thesis by auto
    next
      case e: False
      have "points (merge_following (min s a, max b e) rs) = {min s a..<max b e} \<union> points rs"
        using 2 by (intro points_merge_following) (auto simp: valid_ranges_Cons)
      with False e 2(2,3) show ?thesis by (auto simp: valid_ranges_Cons)
    qed
  qed
qed

lemma valid_Add: "s < e \<Longrightarrow> valid_ranges rs \<Longrightarrow> valid_ranges (Add s e rs)"
  by (simp add: Add_def valid_add_range)

lemma points_Add: "s < e \<Longrightarrow> valid_ranges rs \<Longrightarrow> points (Add s e rs) = points rs \<union> {s..<e}"
  by (simp add: Add_def points_add_range)


lemma points_after:
  "\<forall>(c, d) \<in> set rs. b < c \<Longrightarrow> x \<in> points rs \<Longrightarrow> b < x"
  by (auto simp: points_def)

lemma intersection_loop_correct:
  "valid_ranges xs \<Longrightarrow> valid_ranges ys \<Longrightarrow> valid_ranges result \<Longrightarrow>
   valid_ranges (intersection_loop xs ys result) \<and>
   points (intersection_loop xs ys result) = points result \<union> (points xs \<inter> points ys)"
proof (induction xs ys result rule: intersection_loop.induct)
  case (1 ys result)
  then show ?case by simp
next
  case (2 x xs result)
  then show ?case by simp
next
  case (3 a b xs c d ys result)
  define result' where
    "result' = (if max a c < min b d then Add (max a c) (min b d) result else result)"
  have v': "valid_ranges result'"
    using 3(5) by (simp add: result'_def valid_Add)
  have p': "points result' = points result \<union> ({a..<b} \<inter> {c..<d})"
    using 3(5) by (auto simp: result'_def points_Add)
  from 3(3) have xs: "a < b" "valid_ranges xs" "\<forall>(s, e) \<in> set xs. b < s"
    by (simp_all add: valid_ranges_Cons)
  from 3(4) have ys: "c < d" "valid_ranges ys" "\<forall>(s, e) \<in> set ys. d < s"
    by (simp_all add: valid_ranges_Cons)
  show ?case
  proof (cases "b < d")
    case True
    have IH: "valid_ranges (intersection_loop xs ((c, d) # ys) result') \<and>
        points (intersection_loop xs ((c, d) # ys) result') =
        points result' \<union> (points xs \<inter> points ((c, d) # ys))"
      using 3(1) [OF refl refl result'_def True xs(2) 3(4) v'] .
    have "{a..<b} \<inter> points ys = {}"
      using points_after [OF ys(3)] True by fastforce
    then have "points ((a, b) # xs) \<inter> points ((c, d) # ys) =
        ({a..<b} \<inter> {c..<d}) \<union> (points xs \<inter> points ((c, d) # ys))"
      by auto
    moreover have "intersection_loop ((a, b) # xs) ((c, d) # ys) result =
        intersection_loop xs ((c, d) # ys) result'"
      using True by (simp add: result'_def Let_def)
    ultimately show ?thesis
      using IH p' by (simp only: Un_assoc)
  next
    case False
    have IH: "valid_ranges (intersection_loop ((a, b) # xs) ys result') \<and>
        points (intersection_loop ((a, b) # xs) ys result') =
        points result' \<union> (points ((a, b) # xs) \<inter> points ys)"
      using 3(2) [OF refl refl result'_def False 3(3) ys(2) v'] .
    have "{c..<d} \<inter> points xs = {}"
      using points_after [OF xs(3)] False by fastforce
    then have "points ((a, b) # xs) \<inter> points ((c, d) # ys) =
        ({a..<b} \<inter> {c..<d}) \<union> (points ((a, b) # xs) \<inter> points ys)"
      by auto
    moreover have "intersection_loop ((a, b) # xs) ((c, d) # ys) result =
        intersection_loop ((a, b) # xs) ys result'"
      using False by (simp add: result'_def Let_def)
    ultimately show ?thesis
      using IH p' by (simp only: Un_assoc)
  qed
qed

lemma valid_IntersectionWith:
  "valid_ranges xs \<Longrightarrow> valid_ranges ys \<Longrightarrow> valid_ranges (IntersectionWith xs ys)"
  using intersection_loop_correct [of xs ys "[]"] by (simp add: IntersectionWith_def)

lemma points_IntersectionWith:
  "valid_ranges xs \<Longrightarrow> valid_ranges ys \<Longrightarrow>
   points (IntersectionWith xs ys) = points xs \<inter> points ys"
  using intersection_loop_correct [of xs ys "[]"] by (simp add: IntersectionWith_def)

lemma valid_ranges_unique:
  "valid_ranges xs \<Longrightarrow> valid_ranges ys \<Longrightarrow> points xs = points ys \<Longrightarrow> xs = ys"
proof (induction xs arbitrary: ys)
  case Nil
  then show ?case
    by (cases ys) (auto simp: valid_ranges_Cons)
next
  case (Cons x xs)
  obtain a b where x: "x = (a, b)" by (cases x)
  from Cons.prems(1) x have xs: "a < b" "valid_ranges xs" "\<forall>(s, e) \<in> set xs. b < s"
    by (simp_all add: valid_ranges_Cons)
  have "a \<in> points (x # xs)" using xs(1) x by simp
  then have "ys \<noteq> []" using Cons.prems(3) by auto
  then obtain c d ys' where y: "ys = (c, d) # ys'" by (cases ys) auto
  from Cons.prems(2) y have ys: "c < d" "valid_ranges ys'" "\<forall>(s, e) \<in> set ys'. d < s"
    by (simp_all add: valid_ranges_Cons)
  have eq: "{a..<b} \<union> points xs = {c..<d} \<union> points ys'"
    using Cons.prems(3) x y by simp
  have "a \<in> {c..<d} \<union> points ys'" using eq xs(1) by auto
  then have ca: "c \<le> a" using points_after [OF ys(3)] ys(1) by fastforce
  have "c \<in> {a..<b} \<union> points xs" using eq ys(1) by auto
  then have ac: "a \<le> c" using points_after [OF xs(3)] xs(1) by fastforce
  have "b \<notin> {a..<b} \<union> points xs" using points_after [OF xs(3)] by fastforce
  then have "b \<notin> {c..<d}" using eq by auto
  then have db: "d \<le> b" using ca ac xs(1) by auto
  have "d \<notin> {c..<d} \<union> points ys'" using points_after [OF ys(3)] by fastforce
  then have "d \<notin> {a..<b}" using eq by auto
  then have bd: "b \<le> d" using ca ac ys(1) by auto
  have "points xs = points ys'"
  proof -
    have "points xs = ({a..<b} \<union> points xs) - {a..<b}"
      using points_after [OF xs(3)] by fastforce
    also have "\<dots> = ({c..<d} \<union> points ys') - {c..<d}"
      using eq ca ac db bd by simp
    also have "\<dots> = points ys'"
      using points_after [OF ys(3)] by fastforce
    finally show ?thesis .
  qed
  then have "xs = ys'" using Cons.IH xs(2) ys(2) by blast
  then show ?case using x y ca ac db bd by simp
qed


lemma last_end_times_Nil [simp]: "last_end_times [] = {}"
  by (simp add: last_end_times_def)

lemma last_end_times_Cons:
  "last_end_times (r # rs) =
     (if r = [] then last_end_times rs else insert (snd (last r)) (last_end_times rs))"
  by (auto simp: last_end_times_def)

lemma finite_last_end_times [simp]: "finite (last_end_times active)"
proof -
  have "last_end_times active \<subseteq> (\<lambda>r. snd (last r)) ` set active"
    by (auto simp: last_end_times_def)
  then show ?thesis by (rule finite_subset) simp
qed

lemma highest_end_time_loop_Max:
  "highest_end_time_loop active h = Max (insert h (last_end_times active))"
proof (induction active arbitrary: h)
  case Nil
  then show ?case by simp
next
  case (Cons r rs)
  show ?case
  proof (cases "r = []")
    case True
    then show ?thesis by (simp add: Cons.IH last_end_times_Cons)
  next
    case False
    then have "highest_end_time_loop (r # rs) h =
        Max (insert (max h (snd (last r))) (last_end_times rs))"
      by (simp add: Cons.IH last_conv_nth)
    also have "\<dots> = Max (insert h (insert (snd (last r)) (last_end_times rs)))"
      by (cases "last_end_times rs = {}") (simp_all add: max.assoc)
    finally show ?thesis using False by (simp add: last_end_times_Cons)
  qed
qed

lemma highest_end_time_loop_ge:
  assumes "r \<in> set active" "r \<noteq> []"
  shows "snd (last r) \<le> highest_end_time_loop active h"
proof -
  have "snd (last r) \<in> insert h (last_end_times active)"
    using assms by (auto simp: last_end_times_def)
  then show ?thesis
    unfolding highest_end_time_loop_Max by (intro Max_ge) simp_all
qed

lemma valid_ranges_last:
  "valid_ranges r \<Longrightarrow> r \<noteq> [] \<Longrightarrow> fst (last r) < snd (last r)"
  by (induction r rule: valid_ranges.induct) auto

lemma valid_source_ranges_of:
  assumes "valid_ranges r" "r \<noteq> [] \<longrightarrow> snd (last r) \<le> h"
  shows "valid_ranges (source_ranges_of ended h r)"
proof (cases "ended \<and> r \<noteq> []")
  case True
  then have "fst (last r) < h"
    using valid_ranges_last [of r] assms by auto
  with True assms(1) show ?thesis
    by (simp add: source_ranges_of_def last_conv_nth valid_Add)
next
  case False
  with assms(1) show ?thesis by (auto simp: source_ranges_of_def)
qed

lemma points_source_ranges_of:
  assumes "valid_ranges r" "r \<noteq> [] \<longrightarrow> snd (last r) \<le> h"
  shows "points r \<subseteq> points (source_ranges_of ended h r)"
proof (cases "ended \<and> r \<noteq> []")
  case True
  then have "fst (last r) < h"
    using valid_ranges_last [of r] assms by auto
  with True assms(1) show ?thesis
    by (simp add: source_ranges_of_def last_conv_nth points_Add)
next
  case False
  then show ?thesis by (auto simp: source_ranges_of_def)
qed

lemma source_ranges_of_False [simp]: "source_ranges_of False h r = r"
  by (simp add: source_ranges_of_def)

lemma intersect_loop_correct:
  "valid_ranges acc \<Longrightarrow> \<forall>r \<in> set active. valid_ranges r \<and> (r \<noteq> [] \<longrightarrow> snd (last r) \<le> h) \<Longrightarrow>
   valid_ranges (intersect_loop ended h active acc) \<and>
   points (intersect_loop ended h active acc) =
     points acc \<inter> (\<Inter>r \<in> set active. points (source_ranges_of ended h r))"
proof (induction active arbitrary: acc)
  case Nil
  then show ?case by simp
next
  case (Cons r rs)
  let ?src = "source_ranges_of ended h r"
  have vs: "valid_ranges ?src"
    using Cons.prems(2) by (intro valid_source_ranges_of) simp_all
  have step: "intersect_loop ended h (r # rs) acc =
      intersect_loop ended h rs (IntersectionWith acc ?src)"
    by (simp add: source_ranges_of_def Let_def)
  have "valid_ranges (IntersectionWith acc ?src)"
    using Cons.prems(1) vs by (rule valid_IntersectionWith)
  moreover have "\<forall>r \<in> set rs. valid_ranges r \<and> (r \<noteq> [] \<longrightarrow> snd (last r) \<le> h)"
    using Cons.prems(2) by simp
  ultimately have IH: "valid_ranges (intersect_loop ended h rs (IntersectionWith acc ?src)) \<and>
      points (intersect_loop ended h rs (IntersectionWith acc ?src)) =
        points (IntersectionWith acc ?src) \<inter>
        (\<Inter>r \<in> set rs. points (source_ranges_of ended h r))"
    by (rule Cons.IH)
  have "points (IntersectionWith acc ?src) = points acc \<inter> points ?src"
    using Cons.prems(1) vs by (rule points_IntersectionWith)
  with IH show ?case
    unfolding step by auto
qed

lemma ComputeRangesIntersection_correct:
  assumes "active \<noteq> []" "\<forall>r \<in> set active. valid_ranges r"
  shows "valid_ranges (ComputeRangesIntersection active ended) \<and>
     points (ComputeRangesIntersection active ended) =
       {0..<Max (insert 0 (last_end_times active))} \<inter>
       (\<Inter>r \<in> set active.
          points (source_ranges_of ended (Max (insert 0 (last_end_times active))) r))"
proof -
  let ?h = "highest_end_time_loop active 0"
  have h: "?h = Max (insert 0 (last_end_times active))"
    by (rule highest_end_time_loop_Max)
  have "0 \<le> ?h"
    unfolding h by (intro Max_ge) simp_all
  have seed: "valid_ranges (Add 0 ?h []) \<and> points (Add 0 ?h []) = {0..<?h}"
    using \<open>0 \<le> ?h\<close> by (auto simp: Add_def)
  have "\<forall>r \<in> set active. valid_ranges r \<and> (r \<noteq> [] \<longrightarrow> snd (last r) \<le> ?h)"
    using assms(2) highest_end_time_loop_ge by blast
  with seed have "valid_ranges (intersect_loop ended ?h active (Add 0 ?h [])) \<and>
      points (intersect_loop ended ?h active (Add 0 ?h [])) =
        points (Add 0 ?h []) \<inter> (\<Inter>r \<in> set active. points (source_ranges_of ended ?h r))"
    by (intro intersect_loop_correct) simp_all
  then show ?thesis
    using assms(1) seed unfolding h by (simp add: ComputeRangesIntersection_def Let_def h)
qed


subsection \<open>The buffered-range intersection\<close>

text \<open>
  C6. For every list of range sets, each a well-formed range set, every point of the
  intersection computed with \<open>ended = False\<close> is a point of the intersection computed
  with \<open>ended = True\<close> on the same list: extending the last interval of each non-empty
  set to the highest end time never shrinks the result.
\<close>

theorem ranges_intersection_ended_superset:
  assumes "\<forall>r \<in> set active_ranges. valid_ranges r"
  shows "points (ComputeRangesIntersection active_ranges False) \<subseteq>
         points (ComputeRangesIntersection active_ranges True)"
proof (cases "active_ranges = []")
  case True
  then show ?thesis by (simp add: ComputeRangesIntersection_def)
next
  case False
  let ?h = "Max (insert 0 (last_end_times active_ranges))"
  have "\<forall>r \<in> set active_ranges. points r \<subseteq> points (source_ranges_of True ?h r)"
  proof
    fix r assume r: "r \<in> set active_ranges"
    have "r \<noteq> [] \<longrightarrow> snd (last r) \<le> ?h"
      using highest_end_time_loop_ge [of r active_ranges 0] r
      by (simp add: highest_end_time_loop_Max)
    with assms r show "points r \<subseteq> points (source_ranges_of True ?h r)"
      by (intro points_source_ranges_of) simp_all
  qed
  then show ?thesis
    using ComputeRangesIntersection_correct [OF False assms, of False]
      ComputeRangesIntersection_correct [OF False assms, of True]
    by auto
qed

theorem ranges_intersection_ended_superset_witness:
  "valid_ranges [(0, 10), (20, 30)] \<and> valid_ranges [(5, 25)] \<and>
   points (ComputeRangesIntersection [[(0, 10), (20, 30)], [(5, 25)]] False) \<subseteq>
   points (ComputeRangesIntersection [[(0, 10), (20, 30)], [(5, 25)]] True)"
proof -
  have v: "\<forall>r \<in> set [[(0, 10), (20, 30)], [(5, 25 :: int)]]. valid_ranges r"
    by simp
  show ?thesis
    using ranges_intersection_ended_superset [OF v] by simp
qed

text \<open>
  C7. For every list of well-formed range sets and either value of the ended flag, the
  intersection of a permutation of the list is the same range set, interval for interval.
\<close>

theorem ranges_intersection_permutation:
  assumes "mset active_ranges' = mset active_ranges"
    and "\<forall>r \<in> set active_ranges. valid_ranges r"
  shows "ComputeRangesIntersection active_ranges' ended =
         ComputeRangesIntersection active_ranges ended"
proof (cases "active_ranges = []")
  case True
  with assms(1) show ?thesis by simp
next
  case False
  have s: "set active_ranges' = set active_ranges"
    using assms(1) by (rule mset_eq_setD)
  then have ne: "active_ranges' \<noteq> []" using False by auto
  have l: "last_end_times active_ranges' = last_end_times active_ranges"
    by (simp add: last_end_times_def s)
  have v': "\<forall>r \<in> set active_ranges'. valid_ranges r"
    using assms(2) s by simp
  show ?thesis
  proof (rule valid_ranges_unique)
    show "valid_ranges (ComputeRangesIntersection active_ranges' ended)"
      using ComputeRangesIntersection_correct [OF ne v'] by simp
    show "valid_ranges (ComputeRangesIntersection active_ranges ended)"
      using ComputeRangesIntersection_correct [OF False assms(2)] by simp
    show "points (ComputeRangesIntersection active_ranges' ended) =
        points (ComputeRangesIntersection active_ranges ended)"
      using ComputeRangesIntersection_correct [OF ne v', of ended]
        ComputeRangesIntersection_correct [OF False assms(2), of ended]
      by (simp add: l s)
  qed
qed

theorem ranges_intersection_permutation_witness:
  "mset [[(5, 25)], [(0, 10), (20, 30)]] = mset [[(0, 10), (20, 30)], [(5, 25 :: int)]] \<and>
   valid_ranges [(0, 10), (20, 30)] \<and> valid_ranges [(5, 25)] \<and>
   ComputeRangesIntersection [[(5, 25)], [(0, 10), (20, 30)]] True =
   ComputeRangesIntersection [[(0, 10), (20, 30)], [(5, 25)]] True"
proof -
  have m: "mset [[(5, 25)], [(0, 10), (20, 30)]] = mset [[(0, 10), (20, 30)], [(5, 25 :: int)]]"
    by simp
  have v: "\<forall>r \<in> set [[(0, 10), (20, 30)], [(5, 25 :: int)]]. valid_ranges r"
    by simp
  show ?thesis
    using ranges_intersection_permutation [OF m v, of True] m by simp
qed

subsection \<open>The proportional eviction\<close>

lemma total_buffered_size_loop_sum:
  "total_buffered_size_loop E cs ps acc = acc + sum_list (map (GetBufferedSize E cs) ps)"
  by (induction ps arbitrary: acc) (simp_all add: add.assoc)

lemma unat_sum_list:
  "sum_list (map (\<lambda>p. unat (f p)) ps) < 2 ^ 64 \<Longrightarrow>
   unat (sum_list (map f ps) :: 64 word) = sum_list (map (\<lambda>p. unat (f p)) ps)"
proof (induction ps)
  case Nil
  then show ?case by simp
next
  case (Cons p ps)
  then have "unat (sum_list (map f ps)) = sum_list (map (\<lambda>p. unat (f p)) ps)"
    by simp
  moreover have "unat (f p) + sum_list (map (\<lambda>p. unat (f p)) ps) < 2 ^ LENGTH(64)"
    using Cons.prems by simp
  ultimately show ?case
    by (simp add: unat_add_lem [THEN iffD1])
qed

lemma delegated_cong:
  assumes "\<forall>p \<in> set ps. GetBufferedSize E cs' p = GetBufferedSize E cs p"
  shows "delegated E cs' media_time R tot ps = delegated E cs media_time R tot ps"
proof -
  have "filter (\<lambda>p. GetBufferedSize E cs' p \<noteq> 0) ps = filter (\<lambda>p. GetBufferedSize E cs p \<noteq> 0) ps"
    using assms by (intro filter_cong) simp_all
  moreover have "map (\<lambda>p. Stream_EvictCodedFrames p media_time (R * GetBufferedSize E cs' p div tot))
       (filter (\<lambda>p. GetBufferedSize E cs p \<noteq> 0) ps) =
     map (\<lambda>p. Stream_EvictCodedFrames p media_time (R * GetBufferedSize E cs p div tot))
       (filter (\<lambda>p. GetBufferedSize E cs p \<noteq> 0) ps)"
    using assms by (intro map_cong) simp_all
  ultimately show ?thesis by (simp add: delegated_def)
qed

lemma all_evicted_append:
  "all_evicted E cs (evs @ evs') = (all_evicted E cs evs \<and> all_evicted E (cs @ evs) evs')"
  by (induction evs arbitrary: cs) auto

lemma evict_loop_delegated:
  assumes "independent_sizes E" "distinct ps"
  shows "evict_loop E media_time R tot ps (ok, cs) =
     (ok \<and> all_evicted E cs (delegated E cs media_time R tot ps),
      cs @ delegated E cs media_time R tot ps)"
  using assms(2)
proof (induction ps arbitrary: ok cs)
  case Nil
  then show ?case by (simp add: delegated_def)
next
  case (Cons p ps)
  show ?case
  proof (cases "GetBufferedSize E cs p = 0")
    case True
    have "delegated E cs media_time R tot (p # ps) = delegated E cs media_time R tot ps"
      using True by (simp add: delegated_def)
    with Cons True show ?thesis by simp
  next
    case False
    let ?ev = "Stream_EvictCodedFrames p media_time (R * GetBufferedSize E cs p div tot)"
    have "\<forall>q \<in> set ps. GetBufferedSize E (cs @ [?ev]) q = GetBufferedSize E cs q"
    proof
      fix q assume "q \<in> set ps"
      then have "p \<noteq> q" using Cons.prems by auto
      with assms(1) show "GetBufferedSize E (cs @ [?ev]) q = GetBufferedSize E cs q"
        unfolding independent_sizes_def by blast
    qed
    then have d: "delegated E (cs @ [?ev]) media_time R tot ps = delegated E cs media_time R tot ps"
      by (rule delegated_cong)
    have c: "delegated E cs media_time R tot (p # ps) = ?ev # delegated E cs media_time R tot ps"
      using False by (simp add: delegated_def)
    have "evict_loop E media_time R tot (p # ps) (ok, cs) =
        evict_loop E media_time R tot ps
          (ok \<and> stream_EvictCodedFrames E cs p media_time (R * GetBufferedSize E cs p div tot),
           cs @ [?ev])"
      using False by (simp add: Let_def)
    also have "\<dots> = ((ok \<and> stream_EvictCodedFrames E cs p media_time (R * GetBufferedSize E cs p div tot)) \<and>
          all_evicted E (cs @ [?ev]) (delegated E (cs @ [?ev]) media_time R tot ps),
        (cs @ [?ev]) @ delegated E (cs @ [?ev]) media_time R tot ps)"
      using Cons.prems by (intro Cons.IH) simp
    finally show ?thesis
      unfolding d c by (simp add: eviction_answer_def)
  qed
qed

lemma EvictCodedFrames_delegated:
  assumes "independent_sizes E" "distinct (all_streams ms)"
  defines "tot \<equiv> sum_list (map (GetBufferedSize E (calls ms)) (all_streams ms))"
  shows "EvictCodedFrames E ms media_time R =
     (if tot = 0 then (True, ms)
      else (all_evicted E (calls ms) (delegated E (calls ms) media_time R tot (all_streams ms)),
            ms\<lparr>calls := calls ms @ delegated E (calls ms) media_time R tot (all_streams ms)\<rparr>))"
  using evict_loop_delegated [OF assms(1,2), of media_time R tot True "calls ms"]
  by (simp add: EvictCodedFrames_def total_buffered_size_loop_sum tot_def Let_def)

lemma sum_list_div_le:
  "sum_list (map (\<lambda>x. f x div (T :: nat)) xs) \<le> sum_list (map f xs) div T"
proof (induction xs)
  case Nil
  then show ?case by simp
next
  case (Cons x xs)
  have "f x div T + sum_list (map f xs) div T \<le> (f x + sum_list (map f xs)) div T"
    using div_add1_eq [of "f x" "sum_list (map f xs)" T] by linarith
  with Cons show ?case by simp
qed

lemma sum_list_filter_le:
  "sum_list (map f (filter P xs)) \<le> sum_list (map (f :: 'a \<Rightarrow> nat) xs)"
  by (induction xs) auto

lemma unat_total:
  assumes "total_size E ms < 2 ^ 64"
  shows "unat (sum_list (map (GetBufferedSize E (calls ms)) (all_streams ms))) = total_size E ms"
proof -
  have "total_size E ms = sum_list (map (\<lambda>p. unat (GetBufferedSize E (calls ms) p)) (all_streams ms))"
    by (simp add: total_size_def buffered_size_def [abs_def])
  with assms unat_sum_list [of "GetBufferedSize E (calls ms)" "all_streams ms"]
  show ?thesis by simp
qed

lemma delegated_proportional:
  assumes "no_wraparound E ms R"
  defines "tot \<equiv> sum_list (map (GetBufferedSize E (calls ms)) (all_streams ms))"
  shows "delegated E (calls ms) media_time R tot (all_streams ms) =
         proportional_calls E ms media_time R"
proof -
  have T: "unat tot = total_size E ms"
    using assms(1) unat_total unfolding tot_def no_wraparound_def by blast
  have f: "filter (\<lambda>p. GetBufferedSize E (calls ms) p \<noteq> 0) (all_streams ms) =
      filter (\<lambda>p. buffered_size E ms p \<noteq> 0) (all_streams ms)"
    by (simp add: buffered_size_def unat_eq_zero)
  have "R * GetBufferedSize E (calls ms) p div tot =
      of_nat (unat R * buffered_size E ms p div total_size E ms)"
    if "p \<in> set (all_streams ms)" for p
  proof -
    have "unat R * unat (GetBufferedSize E (calls ms) p) < 2 ^ LENGTH(64)"
      using assms(1) that by (simp add: no_wraparound_def buffered_size_def)
    then have "unat (R * GetBufferedSize E (calls ms) p) = unat R * buffered_size E ms p"
      by (simp add: unat_mult_lem [THEN iffD1] buffered_size_def)
    then have "unat (R * GetBufferedSize E (calls ms) p div tot) =
        unat R * buffered_size E ms p div total_size E ms"
      by (simp add: unat_div T)
    moreover have "R * GetBufferedSize E (calls ms) p div tot =
        word_of_nat (unat (R * GetBufferedSize E (calls ms) p div tot))"
      by simp
    ultimately show ?thesis
      by (simp only:)
  qed
  then show ?thesis
    unfolding delegated_def proportional_calls_def f
    by (intro map_cong) simp_all
qed

text \<open>
  C3, as amended. Let the streams of the three tables be distinct objects with independent
  sizes, and let neither the sum of the sizes nor a product \<open>newDataSize * s\<close> reach
  \<open>2 ^ 64\<close>. If the total size is 0 the call returns true and delegates nothing.
  Otherwise it delegates, to each stream of size \<open>s > 0\<close> and in table order, the
  eviction of exactly \<open>newDataSize * s div total\<close> bytes; a stream of size 0 gets no
  call; every other stream gets its call whatever the earlier ones answered; and the
  result is the conjunction of the answers.
\<close>

theorem eviction_proportional:
  assumes "independent_sizes E" "distinct (all_streams ms)" "no_wraparound E ms newDataSize"
  shows "EvictCodedFrames E ms media_time newDataSize =
     (if total_size E ms = 0 then (True, ms)
      else (all_evicted E (calls ms) (proportional_calls E ms media_time newDataSize),
            ms\<lparr>calls := calls ms @ proportional_calls E ms media_time newDataSize\<rparr>))"
proof -
  let ?tot = "sum_list (map (GetBufferedSize E (calls ms)) (all_streams ms))"
  have "unat ?tot = total_size E ms"
    using assms(3) unat_total unfolding no_wraparound_def by blast
  then have "?tot = 0 \<longleftrightarrow> total_size E ms = 0"
    using unat_eq_zero [of ?tot] by simp
  then show ?thesis
    using EvictCodedFrames_delegated [OF assms(1,2), of media_time newDataSize]
      delegated_proportional [OF assms(3), of media_time]
    by simp
qed

lemma indep_sizes_env: "independent_sizes (sizes_env a v t)"
  by (simp add: independent_sizes_def sizes_env_def quiet_env_def)

theorem eviction_proportional_witness:
  "independent_sizes (sizes_env 100 200 0) \<and> distinct (all_streams three_tracks) \<and>
   no_wraparound (sizes_env 100 200 0) three_tracks 30 \<and>
   EvictCodedFrames (sizes_env 100 200 0) three_tracks 7 30 =
     (False, three_tracks\<lparr>calls := [Stream_EvictCodedFrames (Some 0) 7 10,
                                      Stream_EvictCodedFrames (Some 1) 7 20]\<rparr>)"
proof -
  have i: "independent_sizes (sizes_env 100 200 0)"
    by (rule indep_sizes_env)
  have s: "all_streams three_tracks = [Some 0, Some 1, Some 2]"
    by (simp add: all_streams_def three_tracks_def fresh_object_def)
  have c: "calls three_tracks = []"
    by (simp add: three_tracks_def fresh_object_def)
  have d: "distinct (all_streams three_tracks)"
    by (simp add: s)
  have b: "buffered_size (sizes_env 100 200 0) three_tracks (Some 0) = 100"
    "buffered_size (sizes_env 100 200 0) three_tracks (Some (Suc 0)) = 200"
    "buffered_size (sizes_env 100 200 0) three_tracks (Some 2) = 0"
    by (simp_all add: buffered_size_def sizes_env_def quiet_env_def)
  have t: "total_size (sizes_env 100 200 0) three_tracks = 300"
    by (simp add: total_size_def s b)
  have n: "no_wraparound (sizes_env 100 200 0) three_tracks 30"
    by (simp add: no_wraparound_def t s b)
  have p: "proportional_calls (sizes_env 100 200 0) three_tracks 7 30 =
      [Stream_EvictCodedFrames (Some 0) 7 10, Stream_EvictCodedFrames (Some 1) 7 20]"
    by (simp add: proportional_calls_def t s b)
  have a: "\<not> stream_EvictCodedFrames (sizes_env 100 200 0) cs (Some 0) t n"
    "stream_EvictCodedFrames (sizes_env 100 200 0) cs (Some (Suc 0)) t n" for cs t n
    by (simp_all add: sizes_env_def quiet_env_def)
  show ?thesis
    using eviction_proportional [OF i d n, of 7] i d n
    by (simp add: t p c eviction_answer_def a)
qed

text \<open>With a buffered size and a requested size of \<open>2 ^ 32\<close> bytes each the product
  wraps around to 0: the stream is asked to evict 0 bytes, not \<open>2 ^ 32\<close>.\<close>

theorem eviction_product_wraps_counterexample:
  "made_calls three_tracks
     (snd (EvictCodedFrames (sizes_env (2 ^ 32) 0 0) three_tracks 7 (2 ^ 32))) =
     [Stream_EvictCodedFrames (Some 0) 7 0] \<and>
   unat (2 ^ 32 :: size_t) * buffered_size (sizes_env (2 ^ 32) 0 0) three_tracks (Some 0)
     div total_size (sizes_env (2 ^ 32) 0 0) three_tracks = 2 ^ 32"
proof -
  have s: "all_streams three_tracks = [Some 0, Some 1, Some 2]"
    by (simp add: all_streams_def three_tracks_def fresh_object_def)
  have c: "calls three_tracks = []"
    by (simp add: three_tracks_def fresh_object_def)
  have g: "GetBufferedSize (sizes_env (2 ^ 32) 0 0) cs (Some 0) = 2 ^ 32"
    "GetBufferedSize (sizes_env (2 ^ 32) 0 0) cs (Some (Suc 0)) = 0"
    "GetBufferedSize (sizes_env (2 ^ 32) 0 0) cs (Some 2) = 0" for cs
    by (simp_all add: sizes_env_def quiet_env_def)
  have w: "(2 ^ 32 * 2 ^ 32 :: size_t) = 0" "(2 ^ 32 :: size_t) \<noteq> 0"
    by simp_all
  have "EvictCodedFrames (sizes_env (2 ^ 32) 0 0) three_tracks 7 (2 ^ 32) =
      (False, three_tracks\<lparr>calls := [Stream_EvictCodedFrames (Some 0) 7 0]\<rparr>)"
    using w by (simp add: EvictCodedFrames_def s c g Let_def sizes_env_def quiet_env_def)
  moreover have "total_size (sizes_env (2 ^ 32) 0 0) three_tracks = 2 ^ 32"
    by (simp add: total_size_def buffered_size_def s sizes_env_def quiet_env_def)
  ultimately show ?thesis
    by (simp add: made_calls_def c buffered_size_def sizes_env_def quiet_env_def)
qed

lemma eviction_targets_delegated:
  "eviction_targets (delegated E cs media_time R tot ps) =
     map (\<lambda>p. unat (R * GetBufferedSize E cs p div tot))
       (filter (\<lambda>p. GetBufferedSize E cs p \<noteq> 0) ps)"
  unfolding delegated_def
  by (induction ps) simp_all

lemma sum_list_mono_map:
  "\<forall>x \<in> set xs. f x \<le> (g x :: nat) \<Longrightarrow> sum_list (map f xs) \<le> sum_list (map g xs)"
  by (induction xs) (auto intro: add_mono)

lemma targets_sum_le:
  fixes R :: size_t
  assumes "unat tot = sum_list (map (\<lambda>p. unat (sz p)) ps)" "tot \<noteq> 0"
  shows "sum_list (map (\<lambda>p. unat (R * sz p div tot)) (filter (\<lambda>p. sz p \<noteq> 0) ps)) \<le> unat R"
proof -
  let ?T = "unat tot"
  have T: "0 < ?T" using assms(2) by (simp add: unat_gt_0)
  have "unat (R * sz p div tot) \<le> unat R * unat (sz p) div ?T" for p
  proof -
    have "unat (R * sz p) \<le> unat R * unat (sz p)"
      by (simp add: unat_word_ariths)
    then show ?thesis
      by (simp add: unat_div div_le_mono)
  qed
  then have "sum_list (map (\<lambda>p. unat (R * sz p div tot)) (filter (\<lambda>p. sz p \<noteq> 0) ps)) \<le>
      sum_list (map (\<lambda>p. unat R * unat (sz p) div ?T) (filter (\<lambda>p. sz p \<noteq> 0) ps))"
    by (intro sum_list_mono_map) simp
  also have "\<dots> \<le> sum_list (map (\<lambda>p. unat R * unat (sz p) div ?T) ps)"
    by (rule sum_list_filter_le)
  also have "\<dots> \<le> sum_list (map (\<lambda>p. unat R * unat (sz p)) ps) div ?T"
    by (rule sum_list_div_le)
  also have "sum_list (map (\<lambda>p. unat R * unat (sz p)) ps) = unat R * ?T"
    unfolding assms(1) by (simp add: sum_list_const_mult)
  also have "unat R * ?T div ?T = unat R"
    using T by simp
  finally show ?thesis .
qed

lemma floors_sum_le:
  "sum_list (map (\<lambda>p. (R :: nat) * f p div sum_list (map f ps)) ps) \<le> R"
proof -
  have "sum_list (map (\<lambda>p. R * f p div sum_list (map f ps)) ps) \<le>
      sum_list (map (\<lambda>p. R * f p) ps) div sum_list (map f ps)"
    by (rule sum_list_div_le)
  also have "sum_list (map (\<lambda>p. R * f p) ps) = R * sum_list (map f ps)"
    by (simp add: sum_list_const_mult)
  also have "R * sum_list (map f ps) div sum_list (map f ps) \<le> R"
    by (cases "sum_list (map f ps) = 0") simp_all
  finally show ?thesis .
qed

text \<open>
  C9. Let the streams be distinct objects with independent sizes whose sum is below
  \<open>2 ^ 64\<close>. Then the targets \<open>R * s div total\<close> of all streams add up to
  at most the requested size \<open>R\<close>, and so do the byte counts the call delegates. The
  calls the coordinator makes are exactly one eviction for each stream whose size is not
  zero, with the count the 64-bit arithmetic gives, and nothing else: nothing makes up for
  the bytes lost to rounding. With sizes 1, 1 and 0 and a request of 3 both sums are 2.
\<close>

theorem eviction_targets_sum:
  "(independent_sizes E \<and> distinct (all_streams ms) \<and> total_size E ms < 2 ^ 64 \<longrightarrow>
      sum_list (map (\<lambda>p. unat newDataSize * buffered_size E ms p div total_size E ms)
                  (all_streams ms)) \<le> unat newDataSize \<and>
      sum_list (made_targets E ms media_time newDataSize) \<le> unat newDataSize \<and>
      made_calls ms (snd (EvictCodedFrames E ms media_time newDataSize)) =
        (if total_size E ms = 0 then []
         else delegated E (calls ms) media_time newDataSize (of_nat (total_size E ms))
                (all_streams ms))) \<and>
   sum_list (map (\<lambda>p. unat (3 :: size_t) * buffered_size (sizes_env 1 1 0) three_tracks p
                         div total_size (sizes_env 1 1 0) three_tracks)
               (all_streams three_tracks)) < unat (3 :: size_t) \<and>
   sum_list (made_targets (sizes_env 1 1 0) three_tracks 7 3) < unat (3 :: size_t)"
proof (intro conjI impI)
  assume h: "independent_sizes E \<and> distinct (all_streams ms) \<and> total_size E ms < 2 ^ 64"
  let ?tot = "sum_list (map (GetBufferedSize E (calls ms)) (all_streams ms))"
  let ?d = "delegated E (calls ms) media_time newDataSize ?tot (all_streams ms)"
  have U: "unat ?tot = total_size E ms"
    using h unat_total [of E ms] by simp
  then have "word_of_nat (unat ?tot) = (word_of_nat (total_size E ms) :: size_t)"
    by (simp only:)
  then have W: "word_of_nat (total_size E ms) = ?tot"
    by simp
  have Z: "?tot = 0 \<longleftrightarrow> total_size E ms = 0"
    using U unat_eq_zero [of ?tot] by simp
  have T: "unat ?tot = sum_list (map (\<lambda>p. unat (GetBufferedSize E (calls ms) p)) (all_streams ms))"
    using U by (simp add: total_size_def buffered_size_def [abs_def])
  have made: "made_calls ms (snd (EvictCodedFrames E ms media_time newDataSize)) =
      (if ?tot = 0 then [] else ?d)"
    using h EvictCodedFrames_delegated [of E ms media_time newDataSize]
    by (simp add: made_calls_def)
  show "sum_list (map (\<lambda>p. unat newDataSize * buffered_size E ms p div total_size E ms)
                    (all_streams ms)) \<le> unat newDataSize"
    unfolding total_size_def by (rule floors_sum_le)
  show "sum_list (made_targets E ms media_time newDataSize) \<le> unat newDataSize"
  proof (cases "?tot = 0")
    case True
    then show ?thesis by (simp add: made_targets_def made)
  next
    case False
    then show ?thesis
      using targets_sum_le [OF T False, of newDataSize]
      by (simp add: made_targets_def made eviction_targets_delegated)
  qed
  show "made_calls ms (snd (EvictCodedFrames E ms media_time newDataSize)) =
      (if total_size E ms = 0 then []
       else delegated E (calls ms) media_time newDataSize (of_nat (total_size E ms))
              (all_streams ms))"
    unfolding made W Z ..
next
  have s: "all_streams three_tracks = [Some 0, Some (Suc 0), Some 2]"
    by (simp add: all_streams_def three_tracks_def fresh_object_def)
  have b: "buffered_size (sizes_env 1 1 0) three_tracks (Some 0) = 1"
    "buffered_size (sizes_env 1 1 0) three_tracks (Some (Suc 0)) = 1"
    "buffered_size (sizes_env 1 1 0) three_tracks (Some 2) = 0"
    by (simp_all add: buffered_size_def sizes_env_def quiet_env_def)
  have t: "total_size (sizes_env 1 1 0) three_tracks = 2"
    by (simp add: total_size_def s b)
  show "sum_list (map (\<lambda>p. unat (3 :: size_t) * buffered_size (sizes_env 1 1 0) three_tracks p
                         div total_size (sizes_env 1 1 0) three_tracks)
               (all_streams three_tracks)) < unat (3 :: size_t)"
    by (simp add: t s b)
next
  have s: "all_streams three_tracks = [Some 0, Some (Suc 0), Some 2]"
    by (simp add: all_streams_def three_tracks_def fresh_object_def)
  have c: "calls three_tracks = []"
    by (simp add: three_tracks_def fresh_object_def)
  have g: "GetBufferedSize (sizes_env 1 1 0) cs (Some 0) = 1"
    "GetBufferedSize (sizes_env 1 1 0) cs (Some (Suc 0)) = 1"
    "GetBufferedSize (sizes_env 1 1 0) cs (Some 2) = 0" for cs
    by (simp_all add: sizes_env_def quiet_env_def)
  have "EvictCodedFrames (sizes_env 1 1 0) three_tracks 7 3 =
      (False, three_tracks\<lparr>calls := [Stream_EvictCodedFrames (Some 0) 7 1,
                                       Stream_EvictCodedFrames (Some (Suc 0)) 7 1]\<rparr>)"
    by (simp add: EvictCodedFrames_def s c g Let_def) (simp add: sizes_env_def quiet_env_def)
  then show "sum_list (made_targets (sizes_env 1 1 0) three_tracks 7 3) < unat (3 :: size_t)"
    by (simp add: made_targets_def made_calls_def c)
qed

theorem eviction_targets_sum_witness:
  "independent_sizes (sizes_env 100 200 0) \<and> distinct (all_streams three_tracks) \<and>
   total_size (sizes_env 100 200 0) three_tracks < 2 ^ 64 \<and>
   sum_list (map (\<lambda>p. unat (30 :: size_t) * buffered_size (sizes_env 100 200 0) three_tracks p
                         div total_size (sizes_env 100 200 0) three_tracks)
               (all_streams three_tracks)) \<le> unat (30 :: size_t) \<and>
   sum_list (made_targets (sizes_env 100 200 0) three_tracks 7 30) \<le> unat (30 :: size_t) \<and>
   made_calls three_tracks (snd (EvictCodedFrames (sizes_env 100 200 0) three_tracks 7 30)) =
     [Stream_EvictCodedFrames (Some 0) 7 10, Stream_EvictCodedFrames (Some 1) 7 20]"
proof -
  have i: "independent_sizes (sizes_env 100 200 0)"
    by (rule indep_sizes_env)
  have s: "all_streams three_tracks = [Some 0, Some (Suc 0), Some 2]"
    by (simp add: all_streams_def three_tracks_def fresh_object_def)
  have c: "calls three_tracks = []"
    by (simp add: three_tracks_def fresh_object_def)
  have d: "distinct (all_streams three_tracks)"
    by (simp add: s)
  have b: "buffered_size (sizes_env 100 200 0) three_tracks (Some 0) = 100"
    "buffered_size (sizes_env 100 200 0) three_tracks (Some (Suc 0)) = 200"
    "buffered_size (sizes_env 100 200 0) three_tracks (Some 2) = 0"
    by (simp_all add: buffered_size_def sizes_env_def quiet_env_def)
  have t: "total_size (sizes_env 100 200 0) three_tracks = 300"
    by (simp add: total_size_def s b)
  have g: "GetBufferedSize (sizes_env 100 200 0) cs (Some 0) = 100"
    "GetBufferedSize (sizes_env 100 200 0) cs (Some (Suc 0)) = 200"
    "GetBufferedSize (sizes_env 100 200 0) cs (Some 2) = 0" for cs
    by (simp_all add: sizes_env_def quiet_env_def)
  have p: "delegated (sizes_env 100 200 0) [] 7 30 300 [Some 0, Some (Suc 0), Some 2] =
      [Stream_EvictCodedFrames (Some 0) 7 10, Stream_EvictCodedFrames (Some (Suc 0)) 7 20]"
    by (simp add: delegated_def g)
  have l: "total_size (sizes_env 100 200 0) three_tracks < 2 ^ 64"
    by (simp add: t)
  show ?thesis
    using eviction_targets_sum [of "sizes_env 100 200 0" three_tracks 30 7] i d l
    by (simp add: t s c p)
qed

subsection \<open>The automatic timestamp offset\<close>

lemma min_end_timestamp_loop_Min:
  assumes "\<forall>it \<in> set buffer_queue_map. EndTimestamp (snd it) \<noteq> kNoTimestamp E"
    and "m \<noteq> kNoTimestamp E"
  shows "min_end_timestamp_loop E buffer_queue_map m =
         Min (insert m (end_timestamps buffer_queue_map))"
  using assms
proof (induction buffer_queue_map arbitrary: m)
  case Nil
  then show ?case by (simp add: end_timestamps_def)
next
  case (Cons it rest)
  let ?e = "EndTimestamp (snd it)"
  have fin: "finite (end_timestamps rest)"
    by (simp add: end_timestamps_def)
  have ends: "end_timestamps (it # rest) = insert ?e (end_timestamps rest)"
    by (simp add: end_timestamps_def)
  show ?case
  proof (cases "?e < m")
    case True
    have "min_end_timestamp_loop E (it # rest) m = min_end_timestamp_loop E rest ?e"
      using True by (simp add: Let_def)
    also have "\<dots> = Min (insert ?e (end_timestamps rest))"
      using Cons.prems by (intro Cons.IH) simp_all
    also have "\<dots> = Min (insert m (insert ?e (end_timestamps rest)))"
      using True fin by (simp add: min_def)
    finally show ?thesis by (simp only: ends)
  next
    case False
    have "min_end_timestamp_loop E (it # rest) m = min_end_timestamp_loop E rest m"
      using False Cons.prems by (simp add: Let_def)
    also have "\<dots> = Min (insert m (end_timestamps rest))"
      using Cons.prems by (intro Cons.IH) simp_all
    also have "\<dots> = Min (insert m (insert ?e (end_timestamps rest)))"
    proof -
      have "Min (insert m (insert ?e (end_timestamps rest))) =
          Min (insert ?e (insert m (end_timestamps rest)))"
        by (simp add: insert_commute)
      also have "\<dots> = min ?e (Min (insert m (end_timestamps rest)))"
        using fin by simp
      also have "\<dots> = Min (insert m (end_timestamps rest))"
      proof -
        have "Min (insert m (end_timestamps rest)) \<le> m"
          using fin by (intro Min_le) simp_all
        with False show ?thesis by (simp add: min_def)
      qed
      finally show ?thesis by simp
    qed
    finally show ?thesis by (simp only: ends)
  qed
qed

lemma min_end_timestamp_proper:
  assumes "proper_delivery E buffer_queue_map"
  shows "min_end_timestamp_loop E buffer_queue_map (kNoTimestamp E) =
         Min (end_timestamps buffer_queue_map) \<and>
         Min (end_timestamps buffer_queue_map) \<noteq> kNoTimestamp E"
proof -
  obtain it rest where b: "buffer_queue_map = it # rest"
    using assms by (cases buffer_queue_map) (auto simp: proper_delivery_def)
  let ?e = "EndTimestamp (snd it)"
  have e: "?e \<noteq> kNoTimestamp E" and r: "\<forall>it \<in> set rest. EndTimestamp (snd it) \<noteq> kNoTimestamp E"
    using assms b by (simp_all add: proper_delivery_def)
  have "min_end_timestamp_loop E buffer_queue_map (kNoTimestamp E) =
      min_end_timestamp_loop E rest ?e"
    by (simp add: b Let_def)
  also have "\<dots> = Min (insert ?e (end_timestamps rest))"
    using r e by (rule min_end_timestamp_loop_Min)
  also have "insert ?e (end_timestamps rest) = end_timestamps buffer_queue_map"
    by (simp add: b end_timestamps_def)
  finally have 1: "min_end_timestamp_loop E buffer_queue_map (kNoTimestamp E) =
      Min (end_timestamps buffer_queue_map)" .
  define lowest where "lowest = Min (end_timestamps buffer_queue_map)"
  have "lowest \<in> end_timestamps buffer_queue_map"
    unfolding lowest_def by (intro Min_in) (simp_all add: end_timestamps_def b)
  then obtain it' where "it' \<in> set buffer_queue_map" "lowest = EndTimestamp (snd it')"
    by (auto simp: end_timestamps_def)
  then have "lowest \<noteq> kNoTimestamp E"
    using assms by (simp add: proper_delivery_def)
  with 1 show ?thesis by (simp add: lowest_def)
qed

text \<open>
  C4. For every delivery with automatic offset updating enabled, the amount of the
  automatic update is the minimum of the end timestamps of the batches, a value fixed by
  the delivery alone. When the frame processor's ProcessFrames returns true, the offset
  cell ends at its old value plus that minimum if the frame processor left the value of
  the cell as it was, and at the value the frame processor gave it otherwise: one of the
  two updates applies, never both.
\<close>

theorem auto_timestamp_offset:
  assumes "auto_update_timestamp_offset ms"
    and "proper_delivery E buffer_queue_map"
    and "ProcessFrames E (calls ms) buffer_queue_map (append_window_start_during_append ms)
           (append_window_end_during_append ms) timestamp_offset = (True, offset_after)"
  shows "min_end_timestamp_loop E buffer_queue_map (kNoTimestamp E) =
           Min (end_timestamps buffer_queue_map) \<and>
         fst (OnNewBuffers E ms buffer_queue_map timestamp_offset) = True \<and>
         snd (snd (OnNewBuffers E ms buffer_queue_map timestamp_offset)) =
           (if offset_after = timestamp_offset
            then timestamp_offset + Min (end_timestamps buffer_queue_map)
            else offset_after)"
  using assms(1,3) min_end_timestamp_proper [OF assms(2)]
  by (auto simp: OnNewBuffers_def Let_def call_def)

theorem auto_timestamp_offset_witness:
  "auto_update_timestamp_offset auto_object \<and> proper_delivery quiet_env two_batches \<and>
   ProcessFrames quiet_env (calls auto_object) two_batches
     (append_window_start_during_append auto_object)
     (append_window_end_during_append auto_object) 10 = (True, 10) \<and>
   Min (end_timestamps two_batches) = 5 \<and>
   fst (OnNewBuffers quiet_env auto_object two_batches 10) = True \<and>
   snd (snd (OnNewBuffers quiet_env auto_object two_batches 10)) = 15"
proof -
  have a: "auto_update_timestamp_offset auto_object"
    by (simp add: auto_object_def fresh_object_def)
  have e: "end_timestamps two_batches = {5, 7}"
    by (simp add: end_timestamps_def two_batches_def EndTimestamp_def)
  have p: "proper_delivery quiet_env two_batches"
    by (simp add: proper_delivery_def two_batches_def EndTimestamp_def quiet_env_def)
  have f: "ProcessFrames quiet_env (calls auto_object) two_batches
     (append_window_start_during_append auto_object)
     (append_window_end_during_append auto_object) 10 = (True, 10)"
    by (simp add: quiet_env_def)
  show ?thesis
    using auto_timestamp_offset [OF a p f] a p f
    by (simp add: e)
qed

subsection \<open>Negotiation outside an append\<close>

lemma check_track_ids_distinct:
  "check_track_ids ids seen = (distinct ids \<and> set ids \<inter> seen = {})"
  by (induction ids arbitrary: seen) auto

lemma CheckBytestreamTrackIds_distinct:
  "CheckBytestreamTrackIds tr text_configs = distinct (proposed_ids tr text_configs)"
  by (simp add: CheckBytestreamTrackIds_def proposed_ids_def check_track_ids_distinct)

text \<open>
  C5, as amended. For every invocation of OnNewConfigs while no append is in progress, the
  call aborts on the CHECK when the identifiers of the proposal are pairwise different,
  whatever else the proposal holds; when an identifier comes twice the call returns false
  before it reaches the CHECK. In both cases the object is left as it was.
\<close>

theorem negotiation_outside_append:
  assumes "\<not> append_in_progress ms"
  shows "OnNewConfigs E ms tr text_configs =
     (if distinct (proposed_ids tr text_configs) then CHECK_failed else Returned False, ms)"
  using assms by (simp add: OnNewConfigs_def CheckBytestreamTrackIds_distinct)

theorem negotiation_outside_append_witness:
  "\<not> append_in_progress fresh_object \<and>
   OnNewConfigs quiet_env fresh_object (one_track Audio 1 7) [] = (CHECK_failed, fresh_object)"
proof -
  have a: "\<not> append_in_progress fresh_object"
    by (simp add: fresh_object_def)
  have "distinct (proposed_ids (one_track Audio 1 7) [])"
    by (simp add: proposed_ids_def one_track_def)
  then show ?thesis
    using negotiation_outside_append [OF a, of quiet_env "one_track Audio 1 7" "[]"] a
    by simp
qed

text \<open>Outside an append, a proposal whose audio and video track share the identifier 1
  gets the answer false, not the abort.\<close>

theorem negotiation_outside_append_counterexample:
  "\<not> append_in_progress fresh_object \<and>
   OnNewConfigs quiet_env fresh_object (two_tracks 1 1) [] = (Returned False, fresh_object)"
  by (simp add: OnNewConfigs_def CheckBytestreamTrackIds_def two_tracks_def fresh_object_def)

subsection \<open>Unexpected codecs\<close>

lemma track_step_expected_subset:
  assumes "track_step E tr track n = Continue n'"
  shows "set (expected_acodecs n') \<subseteq> set (expected_acodecs n) \<and>
         set (expected_vcodecs n') \<subseteq> set (expected_vcodecs n)"
  using assms
  by (auto simp: track_step_def audio_track_step_def video_track_step_def Let_def
        split: if_splits prod.splits option.splits
        dest: set_remove1_subset [THEN subsetD])

lemma tracks_loop_expected_subset:
  "tracks_loop E tr ts n = Continue n' \<Longrightarrow>
   set (expected_acodecs n') \<subseteq> set (expected_acodecs n) \<and>
   set (expected_vcodecs n') \<subseteq> set (expected_vcodecs n)"
proof (induction ts arbitrary: n)
  case Nil
  then show ?case by simp
next
  case (Cons t ts)
  then obtain n1 where s: "track_step E tr t n = Continue n1"
    and l: "tracks_loop E tr ts n1 = Continue n'"
    by (auto split: step.splits)
  from track_step_expected_subset [OF s] Cons.IH [OF l] show ?case by blast
qed

lemma track_step_unexpected:
  assumes "track_type track = Audio \<and>
        audio_codec (getAudioConfig tr (bytestream_track_id track)) \<notin> set (expected_acodecs n)
      \<or> track_type track = Video \<and>
        video_codec (getVideoConfig tr (bytestream_track_id track)) \<notin> set (expected_vcodecs n)"
  shows "track_step E tr track n = Return_false (object n)"
  using assms
  by (auto simp: track_step_def audio_track_step_def video_track_step_def Let_def)

lemma tracks_loop_append:
  "tracks_loop E tr (pre @ post) n =
     (case tracks_loop E tr pre n of
        Return_false ms \<Rightarrow> Return_false ms
      | Continue n' \<Rightarrow> tracks_loop E tr post n')"
  by (induction pre arbitrary: n) (auto split: step.splits)

lemma tracks_loop_unexpected:
  assumes "unexpected_codec tr ms track"
    and "set (expected_acodecs n) \<subseteq> set (expected_audio_codecs ms)"
    and "set (expected_vcodecs n) \<subseteq> set (expected_video_codecs ms)"
  shows "tracks_loop E tr (pre @ track # post) n =
         Return_false (object_of (tracks_loop E tr pre n))"
proof (cases "tracks_loop E tr pre n")
  case (Return_false ms')
  then show ?thesis by (simp add: tracks_loop_append)
next
  case (Continue n')
  have "set (expected_acodecs n') \<subseteq> set (expected_audio_codecs ms)"
    "set (expected_vcodecs n') \<subseteq> set (expected_video_codecs ms)"
    using tracks_loop_expected_subset [OF Continue] assms(2,3) by auto
  then have "track_step E tr track n' = Return_false (object n')"
    using assms(1) by (intro track_step_unexpected) (auto simp: unexpected_codec_def)
  then show ?thesis
    using Continue by (simp add: tracks_loop_append)
qed

text \<open>
  C8. For every negotiation during an append whose proposal contains an audio track with a
  codec that is not in the list of expected audio codecs, or a video track with a codec
  that is not in the list of expected video codecs: the call returns false, and it leaves
  the object as the tracks in front of that track left it (as it was, when an identifier
  comes twice). The track itself and the tracks behind it add no call and change no
  table: no stream is created for it.
\<close>

theorem unexpected_codec_fails:
  assumes "append_in_progress ms"
    and "tracks tr = pre @ track # post"
    and "unexpected_codec tr ms track"
  shows "OnNewConfigs E ms tr text_configs =
     (Returned False,
      if distinct (proposed_ids tr text_configs)
      then object_of (tracks_loop E tr pre (negotiation_start ms)) else ms)"
proof -
  have "tracks_loop E tr (tracks tr) (negotiation_start ms) =
      Return_false (object_of (tracks_loop E tr pre (negotiation_start ms)))"
    unfolding assms(2)
    by (rule tracks_loop_unexpected [OF assms(3)]) (simp_all add: negotiation_start_def)
  then show ?thesis
    using assms(1)
    by (simp add: OnNewConfigs_def CheckBytestreamTrackIds_distinct negotiation_start_def)
qed

theorem unexpected_codec_fails_witness:
  "append_in_progress (appending (fresh_object\<lparr>expected_audio_codecs := [7]\<rparr>)) \<and>
   tracks (one_track Audio 1 8) =
     [] @ \<lparr>track_type = Audio, bytestream_track_id = 1, media_track_id = []\<rparr> # [] \<and>
   unexpected_codec (one_track Audio 1 8)
     (appending (fresh_object\<lparr>expected_audio_codecs := [7]\<rparr>))
     \<lparr>track_type = Audio, bytestream_track_id = 1, media_track_id = []\<rparr> \<and>
   OnNewConfigs quiet_env (appending (fresh_object\<lparr>expected_audio_codecs := [7]\<rparr>))
     (one_track Audio 1 8) [] =
     (Returned False, appending (fresh_object\<lparr>expected_audio_codecs := [7]\<rparr>))"
proof -
  let ?ms = "appending (fresh_object\<lparr>expected_audio_codecs := [7]\<rparr>)"
  let ?t = "\<lparr>track_type = Audio, bytestream_track_id = 1, media_track_id = []\<rparr>"
  have a: "append_in_progress ?ms"
    by (simp add: appending_def)
  have t: "tracks (one_track Audio 1 8) = [] @ ?t # []"
    by (simp add: one_track_def)
  have u: "unexpected_codec (one_track Audio 1 8) ?ms ?t"
    by (simp add: unexpected_codec_def one_track_def appending_def fresh_object_def)
  have d: "distinct (proposed_ids (one_track Audio 1 8) [])"
    by (simp add: proposed_ids_def one_track_def)
  show ?thesis
    using unexpected_codec_fails [OF a t u, of quiet_env "[]"] a t u d
    by (simp add: negotiation_start_def)
qed

subsection \<open>The identity remap\<close>

lemma find_stream_single:
  "old_id \<noteq> track_id \<Longrightarrow>
   find_stream track_id [(old_id, h)] cs =
     (Some h, [(track_id, h)], cs @ [FP_UpdateTrack old_id track_id])"
  by (simp add: find_stream_def map_erase_def)

text \<open>
  C2, as amended. For every audio track of a later init segment that the loop over the
  tracks reaches, and whose codec is among the expected audio codecs that no earlier track
  of the proposal has taken: when the audio table holds exactly one entry and the
  identifier of the track differs from the stored key, the track is resolved and the loop
  goes on to the next track; the table then holds the new identifier as its only key, with the
  stream it held before; and the frame processor is told the change by UpdateTrack of the
  old and the new identifier, before the configuration is applied to that stream. The
  same holds for a video track and the video table.
\<close>

theorem identity_remap:
  assumes "first_init_segment_received (object n)"
    and "bytestream_track_id track \<noteq> old_id"
  shows
    "(track_type track = Audio \<and> audio_streams (object n) = [(old_id, h)] \<and>
      audio_codec (getAudioConfig tr (bytestream_track_id track)) \<in> set (expected_acodecs n) \<longrightarrow>
      track_step E tr track n =
        Continue (n\<lparr>
          expected_acodecs :=
            remove1 (audio_codec (getAudioConfig tr (bytestream_track_id track)))
              (expected_acodecs n),
          success := success n \<and>
            UpdateAudioConfig E
              (calls (object n) @
                 [FP_UpdateTrack old_id (bytestream_track_id track),
                  FP_OnPossibleAudioConfigUpdate (getAudioConfig tr (bytestream_track_id track))])
              (Some h) (getAudioConfig tr (bytestream_track_id track)),
          object := (object n)\<lparr>
            audio_streams := [(bytestream_track_id track, h)],
            calls := calls (object n) @
              [FP_UpdateTrack old_id (bytestream_track_id track),
               FP_OnPossibleAudioConfigUpdate (getAudioConfig tr (bytestream_track_id track)),
               Stream_UpdateAudioConfig (Some h)
                 (getAudioConfig tr (bytestream_track_id track))]\<rparr>,
          visited := visited n @
            [track\<lparr>media_track_id := stream_media_track_id E (Some h)\<rparr>]\<rparr>)) \<and>
     (track_type track = Video \<and> video_streams (object n) = [(old_id, h)] \<and>
      video_codec (getVideoConfig tr (bytestream_track_id track)) \<in> set (expected_vcodecs n) \<longrightarrow>
      track_step E tr track n =
        Continue (n\<lparr>
          expected_vcodecs :=
            remove1 (video_codec (getVideoConfig tr (bytestream_track_id track)))
              (expected_vcodecs n),
          success := success n \<and>
            UpdateVideoConfig E
              (calls (object n) @ [FP_UpdateTrack old_id (bytestream_track_id track)])
              (Some h) (getVideoConfig tr (bytestream_track_id track)),
          object := (object n)\<lparr>
            video_streams := [(bytestream_track_id track, h)],
            calls := calls (object n) @
              [FP_UpdateTrack old_id (bytestream_track_id track),
               Stream_UpdateVideoConfig (Some h)
                 (getVideoConfig tr (bytestream_track_id track))]\<rparr>,
          visited := visited n @
            [track\<lparr>media_track_id := stream_media_track_id E (Some h)\<rparr>]\<rparr>))"
proof (intro conjI impI)
  assume a: "track_type track = Audio \<and> audio_streams (object n) = [(old_id, h)] \<and>
      audio_codec (getAudioConfig tr (bytestream_track_id track)) \<in> set (expected_acodecs n)"
  have "find_stream (bytestream_track_id track) (audio_streams (object n)) (calls (object n)) =
      (Some h, [(bytestream_track_id track, h)],
       calls (object n) @ [FP_UpdateTrack old_id (bytestream_track_id track)])"
    using a assms(2) by (simp add: find_stream_single)
  then show "track_step E tr track n =
        Continue (n\<lparr>
          expected_acodecs :=
            remove1 (audio_codec (getAudioConfig tr (bytestream_track_id track)))
              (expected_acodecs n),
          success := success n \<and>
            UpdateAudioConfig E
              (calls (object n) @
                 [FP_UpdateTrack old_id (bytestream_track_id track),
                  FP_OnPossibleAudioConfigUpdate (getAudioConfig tr (bytestream_track_id track))])
              (Some h) (getAudioConfig tr (bytestream_track_id track)),
          object := (object n)\<lparr>
            audio_streams := [(bytestream_track_id track, h)],
            calls := calls (object n) @
              [FP_UpdateTrack old_id (bytestream_track_id track),
               FP_OnPossibleAudioConfigUpdate (getAudioConfig tr (bytestream_track_id track)),
               Stream_UpdateAudioConfig (Some h)
                 (getAudioConfig tr (bytestream_track_id track))]\<rparr>,
          visited := visited n @
            [track\<lparr>media_track_id := stream_media_track_id E (Some h)\<rparr>]\<rparr>)"
    using a assms(1)
    by (simp add: track_step_def audio_track_step_def Let_def call_def)
next
  assume v: "track_type track = Video \<and> video_streams (object n) = [(old_id, h)] \<and>
      video_codec (getVideoConfig tr (bytestream_track_id track)) \<in> set (expected_vcodecs n)"
  have "find_stream (bytestream_track_id track) (video_streams (object n)) (calls (object n)) =
      (Some h, [(bytestream_track_id track, h)],
       calls (object n) @ [FP_UpdateTrack old_id (bytestream_track_id track)])"
    using v assms(2) by (simp add: find_stream_single)
  then show "track_step E tr track n =
        Continue (n\<lparr>
          expected_vcodecs :=
            remove1 (video_codec (getVideoConfig tr (bytestream_track_id track)))
              (expected_vcodecs n),
          success := success n \<and>
            UpdateVideoConfig E
              (calls (object n) @ [FP_UpdateTrack old_id (bytestream_track_id track)])
              (Some h) (getVideoConfig tr (bytestream_track_id track)),
          object := (object n)\<lparr>
            video_streams := [(bytestream_track_id track, h)],
            calls := calls (object n) @
              [FP_UpdateTrack old_id (bytestream_track_id track),
               Stream_UpdateVideoConfig (Some h)
                 (getVideoConfig tr (bytestream_track_id track))]\<rparr>,
          visited := visited n @
            [track\<lparr>media_track_id := stream_media_track_id E (Some h)\<rparr>]\<rparr>)"
    using v assms(1)
    by (simp add: track_step_def video_track_step_def Let_def call_def)
qed

theorem identity_remap_witness:
  "first_init_segment_received (object (negotiation_start later_object)) \<and>
   bytestream_track_id replacement_track \<noteq> 1 \<and>
   track_type replacement_track = Audio \<and>
   audio_streams (object (negotiation_start later_object)) = [(1, 0)] \<and>
   audio_codec (getAudioConfig (one_track Audio 2 7) (bytestream_track_id replacement_track))
     \<in> set (expected_acodecs (negotiation_start later_object)) \<and>
   audio_streams (object_of (track_step quiet_env (one_track Audio 2 7) replacement_track
      (negotiation_start later_object))) = [(2, 0)] \<and>
   calls (object_of (track_step quiet_env (one_track Audio 2 7) replacement_track
      (negotiation_start later_object))) =
     [FP_UpdateTrack 1 2,
      FP_OnPossibleAudioConfigUpdate \<lparr>audio_codec = 7, audio_details = 0\<rparr>,
      Stream_UpdateAudioConfig (Some 0) \<lparr>audio_codec = 7, audio_details = 0\<rparr>] \<and>
   OnNewConfigs quiet_env later_object (one_track Audio 2 7) [] =
     (Returned True,
      later_object\<lparr>audio_streams := [(2, 0)],
        calls := [FP_UpdateTrack 1 2,
                  FP_OnPossibleAudioConfigUpdate \<lparr>audio_codec = 7, audio_details = 0\<rparr>,
                  Stream_UpdateAudioConfig (Some 0) \<lparr>audio_codec = 7, audio_details = 0\<rparr>,
                  FP_SetAllTrackBuffersNeedRandomAccessPoint,
                  CB_InitSegmentReceived [replacement_track]]\<rparr>)"
proof -
  let ?n = "negotiation_start later_object"
  have f: "first_init_segment_received (object ?n)"
    by (simp add: negotiation_start_def later_object_def appending_def fresh_object_def)
  have i: "bytestream_track_id replacement_track \<noteq> 1"
    by (simp add: replacement_track_def)
  have t: "track_type replacement_track = Audio"
    by (simp add: replacement_track_def)
  have a: "audio_streams (object ?n) = [(1, 0)]"
    by (simp add: negotiation_start_def later_object_def appending_def fresh_object_def)
  have c: "audio_codec (getAudioConfig (one_track Audio 2 7)
        (bytestream_track_id replacement_track)) \<in> set (expected_acodecs ?n)"
    by (simp add: negotiation_start_def later_object_def appending_def fresh_object_def
          one_track_def)
  have cs: "calls (object ?n) = []"
    by (simp add: negotiation_start_def later_object_def appending_def fresh_object_def)
  have g: "getAudioConfig (one_track Audio 2 7) k = \<lparr>audio_codec = 7, audio_details = 0\<rparr>" for k
    by (simp add: one_track_def)
  have b: "bytestream_track_id replacement_track = 2"
    by (simp add: replacement_track_def)
  have step: "track_step quiet_env (one_track Audio 2 7) replacement_track ?n = Continue
       (?n\<lparr>expected_acodecs := remove1 7 (expected_acodecs ?n),
            success := success ?n \<and>
              UpdateAudioConfig quiet_env
                [FP_UpdateTrack 1 2,
                 FP_OnPossibleAudioConfigUpdate \<lparr>audio_codec = 7, audio_details = 0\<rparr>]
                (Some 0) \<lparr>audio_codec = 7, audio_details = 0\<rparr>,
            object := (object ?n)\<lparr>audio_streams := [(2, 0)],
              calls := [FP_UpdateTrack 1 2,
                FP_OnPossibleAudioConfigUpdate \<lparr>audio_codec = 7, audio_details = 0\<rparr>,
                Stream_UpdateAudioConfig (Some 0) \<lparr>audio_codec = 7, audio_details = 0\<rparr>]\<rparr>,
            visited := visited ?n @
              [replacement_track\<lparr>media_track_id := stream_media_track_id quiet_env (Some 0)\<rparr>]\<rparr>)"
    using identity_remap [OF f i, of "0" "one_track Audio 2 7" quiet_env] t a c
    by (simp add: cs g b)
  have whole: "OnNewConfigs quiet_env later_object (one_track Audio 2 7) [] =
     (Returned True,
      later_object\<lparr>audio_streams := [(2, 0)],
        calls := [FP_UpdateTrack 1 2,
                  FP_OnPossibleAudioConfigUpdate \<lparr>audio_codec = 7, audio_details = 0\<rparr>,
                  Stream_UpdateAudioConfig (Some 0) \<lparr>audio_codec = 7, audio_details = 0\<rparr>,
                  FP_SetAllTrackBuffersNeedRandomAccessPoint,
                  CB_InitSegmentReceived [replacement_track]]\<rparr>)"
    by (simp add: OnNewConfigs_def CheckBytestreamTrackIds_def one_track_def later_object_def
          appending_def fresh_object_def track_step_def audio_track_step_def find_stream_def
          map_erase_def Let_def call_def quiet_env_def reconcile_text_tracks_def
          replacement_track_def)
  show ?thesis
    using f i t a c whole by (simp add: step)
qed

text \<open>A later init segment that renames the only audio track and brings a codec that is
  not expected: the call returns false ahead of the lookup, the table keeps the old key
  and the frame processor hears nothing.\<close>

theorem identity_remap_counterexample:
  "first_init_segment_received later_object \<and> audio_streams later_object = [(1, 0)] \<and>
   OnNewConfigs quiet_env later_object (one_track Audio 2 8) [] = (Returned False, later_object)"
  by (simp add: OnNewConfigs_def CheckBytestreamTrackIds_def one_track_def later_object_def
        appending_def fresh_object_def track_step_def audio_track_step_def Let_def)

subsection \<open>A null text stream\<close>






subsection \<open>What a negotiation commits\<close>

lemma quiet_extension_refl: "quiet_extension ms ms"
  by (simp add: quiet_extension_def)

lemma quiet_extension_trans:
  "quiet_extension a b \<Longrightarrow> quiet_extension b c \<Longrightarrow> quiet_extension a c"
  unfolding quiet_extension_def by fastforce

lemma quiet_extension_call:
  "\<not> is_delivery ev \<and> ev \<noteq> FP_SetAllTrackBuffersNeedRandomAccessPoint \<Longrightarrow>
   quiet_extension a b \<Longrightarrow> quiet_extension a (call ev b)"
  unfolding quiet_extension_def call_def by fastforce

lemma quiet_extension_same:
  "state c = state b \<Longrightarrow> calls c = calls b \<Longrightarrow> quiet_extension a b \<Longrightarrow> quiet_extension a c"
  unfolding quiet_extension_def by simp

lemma quiet_extension_calls:
  "state c = state b \<Longrightarrow> calls c = calls b @ evs \<Longrightarrow>
   \<forall>ev \<in> set evs. \<not> is_delivery ev \<and> ev \<noteq> FP_SetAllTrackBuffersNeedRandomAccessPoint \<Longrightarrow>
   quiet_extension a b \<Longrightarrow> quiet_extension a c"
  unfolding quiet_extension_def by fastforce

lemma create_stream_calls:
  assumes "create_stream E type track_id streams cs = (stream, streams', cs')"
  shows "\<exists>evs. cs' = cs @ evs \<and> (\<forall>ev \<in> set evs. \<not> is_delivery ev \<and>
       ev \<noteq> FP_SetAllTrackBuffersNeedRandomAccessPoint)"
  using assms
  by (auto simp: create_stream_def Let_def is_delivery_def split: option.splits if_splits)

lemma find_stream_calls:
  assumes "find_stream track_id streams cs = (stream, streams', cs')"
  shows "\<exists>evs. cs' = cs @ evs \<and> (\<forall>ev \<in> set evs. \<not> is_delivery ev \<and>
       ev \<noteq> FP_SetAllTrackBuffersNeedRandomAccessPoint)"
  using assms
  by (auto simp: find_stream_def Let_def is_delivery_def split: list.splits if_splits)

lemma audio_track_step_quiet:
  "quiet_extension (object n) (object_of (audio_track_step E tr track n))"
proof -
  let ?id = "bytestream_track_id track"
  let ?ms = "object n"
  let ?cfg = "getAudioConfig tr ?id"
  obtain stream streams cs where r:
    "(if \<not> first_init_segment_received ?ms
      then create_stream E AUDIO ?id (audio_streams ?ms) (calls ?ms)
      else find_stream ?id (audio_streams ?ms) (calls ?ms)) = (stream, streams, cs)"
    using prod_cases3 by blast
  have "\<exists>evs. cs = calls ?ms @ evs \<and> (\<forall>ev \<in> set evs. \<not> is_delivery ev \<and>
       ev \<noteq> FP_SetAllTrackBuffersNeedRandomAccessPoint)"
  proof (cases "first_init_segment_received ?ms")
    case True
    with r show ?thesis by (auto dest: find_stream_calls)
  next
    case False
    with r show ?thesis by (auto dest: create_stream_calls)
  qed
  then obtain evs where evs: "cs = calls ?ms @ evs" "\<forall>ev \<in> set evs. \<not> is_delivery ev \<and>
      ev \<noteq> FP_SetAllTrackBuffersNeedRandomAccessPoint"
    by blast
  let ?ms1 = "?ms\<lparr>audio_streams := streams, calls := cs\<rparr>"
  have q1: "quiet_extension ?ms ?ms1"
    using evs by (intro quiet_extension_calls [OF _ _ _ quiet_extension_refl]) simp_all
  show ?thesis
  proof (cases "audio_codec ?cfg \<in> set (expected_acodecs n)")
    case False
    then show ?thesis
      by (simp add: audio_track_step_def Let_def quiet_extension_refl)
  next
    case True
    show ?thesis
    proof (cases stream)
      case None
      with True r q1 show ?thesis
        by (simp add: audio_track_step_def Let_def)
    next
      case (Some h)
    have "quiet_extension ?ms
        (call (Stream_UpdateAudioConfig (Some h) ?cfg)
           (call (FP_OnPossibleAudioConfigUpdate ?cfg) ?ms1))"
      using q1 by (intro quiet_extension_call) (simp_all add: is_delivery_def)
      with True r Some show ?thesis
        by (simp add: audio_track_step_def Let_def)
    qed
  qed
qed

lemma video_track_step_quiet:
  "quiet_extension (object n) (object_of (video_track_step E tr track n))"
proof -
  let ?id = "bytestream_track_id track"
  let ?ms = "object n"
  let ?cfg = "getVideoConfig tr ?id"
  obtain stream streams cs where r:
    "(if \<not> first_init_segment_received ?ms
      then create_stream E VIDEO ?id (video_streams ?ms) (calls ?ms)
      else find_stream ?id (video_streams ?ms) (calls ?ms)) = (stream, streams, cs)"
    using prod_cases3 by blast
  have "\<exists>evs. cs = calls ?ms @ evs \<and> (\<forall>ev \<in> set evs. \<not> is_delivery ev \<and>
       ev \<noteq> FP_SetAllTrackBuffersNeedRandomAccessPoint)"
  proof (cases "first_init_segment_received ?ms")
    case True
    with r show ?thesis by (auto dest: find_stream_calls)
  next
    case False
    with r show ?thesis by (auto dest: create_stream_calls)
  qed
  then obtain evs where evs: "cs = calls ?ms @ evs" "\<forall>ev \<in> set evs. \<not> is_delivery ev \<and>
      ev \<noteq> FP_SetAllTrackBuffersNeedRandomAccessPoint"
    by blast
  let ?ms1 = "?ms\<lparr>video_streams := streams, calls := cs\<rparr>"
  have q1: "quiet_extension ?ms ?ms1"
    using evs by (intro quiet_extension_calls [OF _ _ _ quiet_extension_refl]) simp_all
  show ?thesis
  proof (cases "video_codec ?cfg \<in> set (expected_vcodecs n)")
    case False
    then show ?thesis
      by (simp add: video_track_step_def Let_def quiet_extension_refl)
  next
    case True
    show ?thesis
    proof (cases stream)
      case None
      with True r q1 show ?thesis
        by (simp add: video_track_step_def Let_def)
    next
      case (Some h)
    have "quiet_extension ?ms (call (Stream_UpdateVideoConfig (Some h) ?cfg) ?ms1)"
      using q1 by (intro quiet_extension_call) (simp_all add: is_delivery_def)
      with True r Some show ?thesis
        by (simp add: video_track_step_def Let_def)
    qed
  qed
qed

lemma track_step_quiet:
  "quiet_extension (object n) (object_of (track_step E tr track n))"
  by (simp add: track_step_def audio_track_step_quiet video_track_step_quiet
        quiet_extension_refl)

lemma tracks_loop_quiet:
  "quiet_extension (object n) (object_of (tracks_loop E tr ts n))"
proof (induction ts arbitrary: n)
  case Nil
  then show ?case by (simp add: quiet_extension_refl)
next
  case (Cons t ts)
  show ?case
  proof (cases "track_step E tr t n")
    case (Return_false ms')
    then show ?thesis using track_step_quiet [of n E tr t] by simp
  next
    case (Continue n')
    then have "quiet_extension (object n) (object n')"
      using track_step_quiet [of n E tr t] by simp
    then show ?thesis
      using Continue Cons.IH [of n'] by (auto intro: quiet_extension_trans)
  qed
qed

lemma create_text_streams_quiet:
  "quiet_extension ms0 ms \<Longrightarrow>
   quiet_extension ms0 (snd (create_text_streams E text_configs (ok, ms)))"
proof (induction text_configs arbitrary: ms)
  case Nil
  then show ?case by simp
next
  case (Cons itr rest)
  let ?ts = "create_demuxer_stream_cb E (calls ms) TEXT"
  let ?ms1 = "call (CB_CreateDemuxerStream TEXT) ms"
  let ?ms2 = "call (FP_AddTrack (fst itr) ?ts) ?ms1"
  have "quiet_extension ms0 ?ms1"
    using Cons.prems by (rule quiet_extension_call [rotated]) (simp add: is_delivery_def)
  then have q2: "quiet_extension ms0 ?ms2"
    by (rule quiet_extension_call [rotated]) (simp add: is_delivery_def)
  show ?case
  proof (cases "AddTrack E (calls ?ms1) (fst itr) ?ts")
    case False
    with q2 show ?thesis by (simp add: Let_def)
  next
    case True
    show ?thesis
    proof (cases ?ts)
      case None
      with True q2 show ?thesis by (simp add: Let_def)
    next
      case (Some h)
      let ?ms3 = "call (Stream_UpdateTextConfig (Some h) (snd itr)) ?ms2"
      let ?ms4 = "?ms3\<lparr>text_stream_map :=
                        map_assign (fst itr) (Some h) (text_stream_map ?ms3)\<rparr>"
      let ?ms5 = "call (CB_NewTextTrack (Some h) (snd itr)) ?ms4"
      have "quiet_extension ms0 ?ms3"
        using q2 by (rule quiet_extension_call [rotated]) (simp add: is_delivery_def)
      then have "quiet_extension ms0 ?ms4"
        by (rule quiet_extension_same [rotated 2]) simp_all
      then have "quiet_extension ms0 ?ms5"
        by (rule quiet_extension_call [rotated]) (simp add: is_delivery_def)
      then have "quiet_extension ms0 (snd (create_text_streams E rest (ok, ?ms5)))"
        by (rule Cons.IH)
      with True Some show ?thesis
        by (simp add: Let_def)
    qed
  qed
qed

lemma remap_single_text_track_calls:
  "state (snd (remap_single_text_track E text_configs (ok, ms))) = state ms \<and>
   (calls (snd (remap_single_text_track E text_configs (ok, ms))) = calls ms \<or>
    (\<exists>old_id new_id. calls (snd (remap_single_text_track E text_configs (ok, ms))) =
       calls ms @ [FP_UpdateTrack old_id new_id]))"
  by (simp add: remap_single_text_track_def Let_def call_def split: list.splits option.splits)

lemma remap_single_text_track_quiet:
  "quiet_extension ms (snd (remap_single_text_track E text_configs (ok, ms)))"
proof -
  let ?ms' = "snd (remap_single_text_track E text_configs (ok, ms))"
  from remap_single_text_track_calls [of E text_configs ok ms]
  have s: "state ?ms' = state ms"
    and "calls ?ms' = calls ms \<or>
      (\<exists>old_id new_id. calls ?ms' = calls ms @ [FP_UpdateTrack old_id new_id])"
    by blast+
  then obtain evs where "calls ?ms' = calls ms @ evs"
    "\<forall>ev \<in> set evs. \<not> is_delivery ev \<and> ev \<noteq> FP_SetAllTrackBuffersNeedRandomAccessPoint"
  proof (elim disjE exE)
    assume "calls ?ms' = calls ms"
    then have "calls ?ms' = calls ms @ []" by simp
    then show ?thesis using that by fastforce
  next
    fix old_id new_id
    assume "calls ?ms' = calls ms @ [FP_UpdateTrack old_id new_id]"
    then show ?thesis using that [of "[FP_UpdateTrack old_id new_id]"]
      by (simp add: is_delivery_def)
  qed
  with s show ?thesis
    unfolding quiet_extension_def by blast
qed

lemma match_text_configs_quiet:
  "snd (match_text_configs E text_configs (ok, ms)) = ms"
  by (induction text_configs) (auto simp: Let_def split: option.splits)

lemma reconcile_text_tracks_quiet:
  "quiet_extension ms (snd (reconcile_text_tracks E text_configs (ok, ms)))"
  by (simp add: reconcile_text_tracks_def Let_def quiet_extension_refl
        create_text_streams_quiet remap_single_text_track_quiet match_text_configs_quiet)

lemma fold_call_quiet:
  "\<forall>it \<in> set its. \<not> is_delivery (f it) \<and> f it \<noteq> FP_SetAllTrackBuffersNeedRandomAccessPoint \<Longrightarrow>
   quiet_extension a b \<Longrightarrow> quiet_extension a (fold (\<lambda>it. call (f it)) its b)"
  by (induction its arbitrary: b) (simp_all add: quiet_extension_call)

lemma SetStreamMemoryLimits_quiet:
  "quiet_extension a b \<Longrightarrow> quiet_extension a (SetStreamMemoryLimits E b)"
  by (auto simp: SetStreamMemoryLimits_def Let_def is_delivery_def split: option.splits
        intro!: fold_call_quiet)

lemma quiet_extension_made_calls:
  assumes "quiet_extension ms ms'"
  shows "state ms' = state ms"
    "\<forall>ev \<in> set (made_calls ms ms'). \<not> is_delivery ev \<and>
       ev \<noteq> FP_SetAllTrackBuffersNeedRandomAccessPoint"
    "calls ms' = calls ms @ made_calls ms ms'"
  using assms unfolding quiet_extension_def made_calls_def by auto

text \<open>The two ways a call can end: ahead of the marking, with nothing but calls that
  neither mark nor deliver; or past it, and then with true and the delivery or with false
  and no delivery.\<close>

lemma OnNewConfigs_shape:
  "(\<not> reaches_end E ms tr text_configs \<and>
    fst (OnNewConfigs E ms tr text_configs) \<noteq> Returned True \<and>
    quiet_extension ms (snd (OnNewConfigs E ms tr text_configs))) \<or>
   (reaches_end E ms tr text_configs \<and>
    (\<exists>ms2 ms4 ok delivered.
       quiet_extension ms ms2 \<and>
       quiet_extension (call FP_SetAllTrackBuffersNeedRandomAccessPoint ms2) ms4 \<and>
       OnNewConfigs E ms tr text_configs =
         (if ok
          then (Returned True,
                call (CB_InitSegmentReceived delivered)
                  (ms4\<lparr>state := (if state ms4 = PENDING_PARSER_CONFIG
                                  then PENDING_PARSER_INIT else state ms4)\<rparr>))
          else (Returned False, ms4))))"
proof (cases "CheckBytestreamTrackIds tr text_configs \<and> append_in_progress ms")
  case False
  then show ?thesis
    by (auto simp: OnNewConfigs_def reaches_end_def quiet_extension_refl)
next
  case True
  let ?n0 = "\<lparr>expected_acodecs = expected_audio_codecs ms,
              expected_vcodecs = expected_video_codecs ms,
              success = True, object = ms, visited = []\<rparr>"
  have n0: "negotiation_start ms = ?n0"
    by (simp add: negotiation_start_def)
  have L: "quiet_extension ms (object_of (tracks_loop E tr (tracks tr) ?n0))"
    using tracks_loop_quiet [of ?n0 E tr "tracks tr"] by simp
  show ?thesis
  proof (cases "tracks_loop E tr (tracks tr) ?n0")
    case (Return_false ms1)
    then have "OnNewConfigs E ms tr text_configs = (Returned False, ms1)"
      using True by (simp add: OnNewConfigs_def)
    moreover have "\<not> reaches_end E ms tr text_configs"
      using Return_false by (simp add: reaches_end_def n0)
    ultimately show ?thesis
      using L Return_false by simp
  next
    case (Continue n)
    with L have qn: "quiet_extension ms (object n)" by simp
    show ?thesis
    proof (cases "expected_acodecs n \<noteq> [] \<or> expected_vcodecs n \<noteq> []")
      case unconsumed: True
      then have "OnNewConfigs E ms tr text_configs = (Returned False, object n)"
        using True Continue by (simp add: OnNewConfigs_def)
      moreover have "\<not> reaches_end E ms tr text_configs"
        using Continue unconsumed by (auto simp: reaches_end_def n0)
      ultimately show ?thesis
        using qn by simp
    next
      case False
      obtain r ms2 where T: "reconcile_text_tracks E text_configs (success n, object n) = (r, ms2)"
        by (cases "reconcile_text_tracks E text_configs (success n, object n)")
      have "quiet_extension (object n) ms2"
        using reconcile_text_tracks_quiet [of "object n" E text_configs "success n"] T by simp
      with qn have q2: "quiet_extension ms ms2"
        by (rule quiet_extension_trans)
      show ?thesis
      proof (cases r)
        case Null_dereferenced
        then have "OnNewConfigs E ms tr text_configs = (Null_dereference, ms2)"
          using True Continue False T by (simp add: OnNewConfigs_def)
        moreover have "\<not> reaches_end E ms tr text_configs"
          using Continue T Null_dereferenced by (simp add: reaches_end_def n0)
        ultimately show ?thesis
          using q2 by simp
      next
        case (Proceeds ok)
        show ?thesis
        proof (cases "audio_streams ms2 = [] \<and> video_streams ms2 = []")
          case empty: True
          then have "OnNewConfigs E ms tr text_configs = (Returned False, ms2)"
            using True Continue False T Proceeds by (simp add: OnNewConfigs_def)
          moreover have "\<not> reaches_end E ms tr text_configs"
            using Continue T Proceeds empty by (simp add: reaches_end_def n0)
          ultimately show ?thesis
            using q2 by simp
        next
          case some: False
          have re: "reaches_end E ms tr text_configs"
            using True Continue False T Proceeds some by (simp add: reaches_end_def n0)
          define ms3 where "ms3 = call FP_SetAllTrackBuffersNeedRandomAccessPoint ms2"
          define ms4 where "ms4 =
            (if \<not> first_init_segment_received ms3
             then SetStreamMemoryLimits E (ms3\<lparr>first_init_segment_received := True\<rparr>)
             else ms3)"
          have q34: "quiet_extension ms3 ms4"
          proof (cases "first_init_segment_received ms3")
            case True
            then show ?thesis by (simp add: ms4_def quiet_extension_refl)
          next
            case False
            have "quiet_extension ms3 (ms3\<lparr>first_init_segment_received := True\<rparr>)"
              by (rule quiet_extension_same [OF _ _ quiet_extension_refl]) simp_all
            then show ?thesis
              using False by (simp add: ms4_def SetStreamMemoryLimits_quiet)
          qed
          have R: "OnNewConfigs E ms tr text_configs =
              (if ok
               then (Returned True,
                     call (CB_InitSegmentReceived (visited n))
                       (ms4\<lparr>state := (if state ms4 = PENDING_PARSER_CONFIG
                                        then PENDING_PARSER_INIT else state ms4)\<rparr>))
               else (Returned False, ms4))"
            using True Continue False T Proceeds some
            by (cases "audio_streams ms2 = []")
               (simp_all add: OnNewConfigs_def Let_def ms3_def ms4_def)
          from q2 q34 R have "\<exists>ms2 ms4 ok delivered.
             quiet_extension ms ms2 \<and>
             quiet_extension (call FP_SetAllTrackBuffersNeedRandomAccessPoint ms2) ms4 \<and>
             OnNewConfigs E ms tr text_configs =
               (if ok
                then (Returned True,
                      call (CB_InitSegmentReceived delivered)
                        (ms4\<lparr>state := (if state ms4 = PENDING_PARSER_CONFIG
                                        then PENDING_PARSER_INIT else state ms4)\<rparr>))
                else (Returned False, ms4))"
            unfolding ms3_def by blast
          with re show ?thesis by blast
        qed
      qed
    qed
  qed
qed

text \<open>
  C1, as amended. For every call of OnNewConfigs: the transition from
  PENDING\_PARSER\_CONFIG to PENDING\_PARSER\_INIT and the delivery of the track set to the
  track-discovery callback happen only when the call returns true, and then the track
  buffers have been marked as needing a random access point before the delivery, which is
  the last call made. When the call returns false or does not return, the state of the
  state machine is unchanged and nothing is delivered. The marking is not tied to the
  result: the track buffers are marked by exactly the calls that get to the end of
  OnNewConfigs, and such a call marks them before it returns, also when it returns false
  because a configuration update or the reconciliation of the text tracks failed.
\<close>

theorem negotiation_commit:
  "(fst (OnNewConfigs E ms tr text_configs) = Returned True \<longrightarrow>
      state (snd (OnNewConfigs E ms tr text_configs)) =
        (if state ms = PENDING_PARSER_CONFIG then PENDING_PARSER_INIT else state ms) \<and>
      (\<exists>evs delivered.
         made_calls ms (snd (OnNewConfigs E ms tr text_configs)) =
           evs @ [CB_InitSegmentReceived delivered] \<and>
         FP_SetAllTrackBuffersNeedRandomAccessPoint \<in> set evs \<and>
         (\<forall>ev \<in> set evs. \<not> is_delivery ev))) \<and>
   (fst (OnNewConfigs E ms tr text_configs) \<noteq> Returned True \<longrightarrow>
      state (snd (OnNewConfigs E ms tr text_configs)) = state ms \<and>
      (\<forall>ev \<in> set (made_calls ms (snd (OnNewConfigs E ms tr text_configs))).
         \<not> is_delivery ev)) \<and>
   (FP_SetAllTrackBuffersNeedRandomAccessPoint
      \<in> set (made_calls ms (snd (OnNewConfigs E ms tr text_configs))) \<longleftrightarrow>
    reaches_end E ms tr text_configs) \<and>
   (reaches_end E ms tr text_configs \<longrightarrow>
      (\<exists>b. fst (OnNewConfigs E ms tr text_configs) = Returned b))"
proof -
  let ?mark = "FP_SetAllTrackBuffersNeedRandomAccessPoint"
  let ?r = "OnNewConfigs E ms tr text_configs"
  consider
    (early) "\<not> reaches_end E ms tr text_configs" "fst ?r \<noteq> Returned True"
      "quiet_extension ms (snd ?r)"
  | (late) ms2 ms4 ok delivered where "reaches_end E ms tr text_configs"
      "quiet_extension ms ms2" "quiet_extension (call ?mark ms2) ms4"
      "?r = (if ok
             then (Returned True,
                   call (CB_InitSegmentReceived delivered)
                     (ms4\<lparr>state := (if state ms4 = PENDING_PARSER_CONFIG
                                     then PENDING_PARSER_INIT else state ms4)\<rparr>))
             else (Returned False, ms4))"
    using OnNewConfigs_shape [of E ms tr text_configs] by blast
  then show ?thesis
  proof cases
    case early
    from quiet_extension_made_calls(1,2) [OF early(3)] early(1,2)
    show ?thesis by auto
  next
    case late
    obtain evs2 where e2: "calls ms2 = calls ms @ evs2"
      "\<forall>ev \<in> set evs2. \<not> is_delivery ev \<and> ev \<noteq> ?mark"
      and s2: "state ms2 = state ms"
      using late(2) unfolding quiet_extension_def by blast
    obtain evs4 where e4: "calls ms4 = calls (call ?mark ms2) @ evs4"
      "\<forall>ev \<in> set evs4. \<not> is_delivery ev \<and> ev \<noteq> ?mark"
      and s4: "state ms4 = state (call ?mark ms2)"
      using late(3) unfolding quiet_extension_def by blast
    have c4: "calls ms4 = calls ms @ (evs2 @ ?mark # evs4)"
      using e2(1) e4(1) by (simp add: call_def)
    have st: "state ms4 = state ms"
      using s2 s4 by (simp add: call_def)
    have quiet: "\<forall>ev \<in> set (evs2 @ ?mark # evs4). \<not> is_delivery ev"
      using e2(2) e4(2) by (auto simp: is_delivery_def)
    have mark: "?mark \<in> set (evs2 @ ?mark # evs4)"
      by simp
    show ?thesis
    proof (cases ok)
      case True
      then have r: "?r = (Returned True,
          call (CB_InitSegmentReceived delivered)
            (ms4\<lparr>state := (if state ms4 = PENDING_PARSER_CONFIG
                            then PENDING_PARSER_INIT else state ms4)\<rparr>))"
        using late(4) by (simp only: if_True)
      have made: "made_calls ms (snd ?r) =
          (evs2 @ ?mark # evs4) @ [CB_InitSegmentReceived delivered]"
        by (simp add: r made_calls_def call_def c4)
      from made quiet mark have "\<exists>evs delivered.
           made_calls ms (snd ?r) = evs @ [CB_InitSegmentReceived delivered] \<and>
           ?mark \<in> set evs \<and> (\<forall>ev \<in> set evs. \<not> is_delivery ev)"
        by blast
      moreover have "state (snd ?r) =
          (if state ms = PENDING_PARSER_CONFIG then PENDING_PARSER_INIT else state ms)"
        by (simp add: r call_def st)
      moreover have "?mark \<in> set (made_calls ms (snd ?r))"
        unfolding made by simp
      moreover have "fst ?r = Returned True"
        by (simp add: r)
      ultimately show ?thesis
        using late(1) by auto
    next
      case False
      then have r: "?r = (Returned False, ms4)"
        using late(4) by (simp only: if_False)
      have made: "made_calls ms (snd ?r) = evs2 @ ?mark # evs4"
        by (simp add: r made_calls_def c4)
      have "\<forall>ev \<in> set (made_calls ms (snd ?r)). \<not> is_delivery ev"
        unfolding made using quiet by simp
      moreover have "?mark \<in> set (made_calls ms (snd ?r))"
        unfolding made by simp
      moreover have "state (snd ?r) = state ms"
        by (simp add: r st)
      moreover have "fst ?r = Returned False"
        by (simp add: r)
      ultimately show ?thesis
        using late(1) by auto
    qed
  qed
qed

theorem negotiation_commit_witness:
  "fst (OnNewConfigs null_text_env (appending (fresh_object\<lparr>expected_audio_codecs := [7]\<rparr>))
          (one_track Audio 1 7) []) = Returned True \<and>
   state (appending (fresh_object\<lparr>expected_audio_codecs := [7]\<rparr>)) = PENDING_PARSER_CONFIG \<and>
   state (snd (OnNewConfigs null_text_env
                 (appending (fresh_object\<lparr>expected_audio_codecs := [7]\<rparr>))
                 (one_track Audio 1 7) [])) = PENDING_PARSER_INIT \<and>
   fst (OnNewConfigs failing_config_env later_object (one_track Audio 1 7) []) \<noteq> Returned True \<and>
   state (snd (OnNewConfigs failing_config_env later_object (one_track Audio 1 7) [])) =
     state later_object \<and>
   reaches_end quiet_env later_object_with_text (one_track Audio 1 7) [] \<and>
   fst (OnNewConfigs quiet_env later_object_with_text (one_track Audio 1 7) []) =
     Returned False \<and>
   FP_SetAllTrackBuffersNeedRandomAccessPoint
     \<in> set (made_calls later_object_with_text
              (snd (OnNewConfigs quiet_env later_object_with_text (one_track Audio 1 7) [])))"
proof -
  let ?ms = "appending (fresh_object\<lparr>expected_audio_codecs := [7]\<rparr>)"
  have a: "fst (OnNewConfigs null_text_env ?ms (one_track Audio 1 7) []) = Returned True"
    by (simp add: OnNewConfigs_def CheckBytestreamTrackIds_def one_track_def
          appending_def fresh_object_def track_step_def audio_track_step_def create_stream_def
          Let_def call_def null_text_env_def quiet_env_def reconcile_text_tracks_def
          SetStreamMemoryLimits_def)
  have s: "state ?ms = PENDING_PARSER_CONFIG"
    by (simp add: appending_def fresh_object_def)
  have f: "fst (OnNewConfigs failing_config_env later_object (one_track Audio 1 7) []) \<noteq>
      Returned True"
    by (simp add: OnNewConfigs_def CheckBytestreamTrackIds_def one_track_def later_object_def
          appending_def fresh_object_def track_step_def audio_track_step_def find_stream_def
          Let_def call_def failing_config_env_def quiet_env_def reconcile_text_tracks_def)
  have e: "reaches_end quiet_env later_object_with_text (one_track Audio 1 7) []"
    by (simp add: reaches_end_def negotiation_start_def CheckBytestreamTrackIds_def
          one_track_def later_object_with_text_def later_object_def
          appending_def fresh_object_def track_step_def audio_track_step_def find_stream_def
          Let_def call_def quiet_env_def reconcile_text_tracks_def)
  have t: "fst (OnNewConfigs quiet_env later_object_with_text (one_track Audio 1 7) []) =
      Returned False"
    by (simp add: OnNewConfigs_def CheckBytestreamTrackIds_def
          one_track_def later_object_with_text_def later_object_def
          appending_def fresh_object_def track_step_def audio_track_step_def find_stream_def
          Let_def call_def quiet_env_def reconcile_text_tracks_def)
  show ?thesis
    using negotiation_commit [of null_text_env ?ms "one_track Audio 1 7" "[]"]
      negotiation_commit [of failing_config_env later_object "one_track Audio 1 7" "[]"]
      negotiation_commit [of quiet_env later_object_with_text "one_track Audio 1 7" "[]"]
      a s f e t
    by simp
qed

text \<open>A later init segment whose audio configuration the stream refuses: the call
  returns false, and the track buffers have been marked.\<close>

theorem marking_without_success_counterexample:
  "OnNewConfigs failing_config_env later_object (one_track Audio 1 7) [] =
     (Returned False,
      later_object\<lparr>calls :=
        [FP_OnPossibleAudioConfigUpdate \<lparr>audio_codec = 7, audio_details = 0\<rparr>,
         Stream_UpdateAudioConfig (Some 0) \<lparr>audio_codec = 7, audio_details = 0\<rparr>,
         FP_SetAllTrackBuffersNeedRandomAccessPoint]\<rparr>)"
  by (simp add: OnNewConfigs_def CheckBytestreamTrackIds_def one_track_def later_object_def
        appending_def fresh_object_def track_step_def audio_track_step_def find_stream_def
        Let_def call_def failing_config_env_def quiet_env_def reconcile_text_tracks_def)

end
